theory Spec2Isabelle
  imports Main "HOL-Library.AList"
begin

section \<open>The board of \<^verbatim>\<open>mines.py\<close>\<close>

text \<open>
  A cell is a pair (row, column) of Python integers. The three numpy arrays of shape
  (height, width) are functions from cells to values; only the entries inside the shape
  are meaningful. numpy accepts a negative index \<open>i\<close> with \<open>-n \<le> i\<close> and reads the
  entry \<open>i + n\<close>; any other index outside \<open>0 \<le> i < n\<close> raises IndexError.
\<close>

type_synonym cell = "int \<times> int"

datatype error = IndexError | ValueError

record minesweeper_board =
  width :: int
  height :: int
  num_mines :: int
  board :: "cell \<Rightarrow> int"
  visible :: "cell \<Rightarrow> bool"
  marked :: "cell \<Rightarrow> bool"
  first_move :: bool
  game_over :: bool
  won :: bool

definition norm_index :: "int \<Rightarrow> int \<Rightarrow> int" where
  "norm_index n i = (if i < 0 then i + n else i)"

definition in_bounds :: "minesweeper_board \<Rightarrow> cell \<Rightarrow> bool" where
  "in_bounds b p \<longleftrightarrow>
     - height b \<le> fst p \<and> fst p < height b \<and> - width b \<le> snd p \<and> snd p < width b"

definition at :: "minesweeper_board \<Rightarrow> cell \<Rightarrow> cell" where
  "at b p = (norm_index (height b) (fst p), norm_index (width b) (snd p))"

text \<open>The cells of the board proper: \<open>0 \<le> i < height\<close>, \<open>0 \<le> j < width\<close>.\<close>

definition in_range :: "minesweeper_board \<Rightarrow> cell \<Rightarrow> bool" where
  "in_range b p \<longleftrightarrow> 0 \<le> fst p \<and> fst p < height b \<and> 0 \<le> snd p \<and> snd p < width b"

text \<open>\<^verbatim>\<open>[(i, j) for i in range(height) for j in range(width)]\<close>\<close>

definition positions :: "minesweeper_board \<Rightarrow> cell list" where
  "positions b = List.product [0 .. height b - 1] [0 .. width b - 1]"

text \<open>
  The pairs (di, dj) in the order of the two nested loops over \<^verbatim>\<open>[-1, 0, 1]\<close>,
  with (0, 0) skipped.
\<close>

definition offsets :: "cell list" where
  "offsets = [(-1, -1), (-1, 0), (-1, 1), (0, -1), (0, 1), (1, -1), (1, 0), (1, 1)]"

fun shifted :: "cell \<Rightarrow> cell list" where
  "shifted (i, j) = map (\<lambda>(di, dj). (i + di, j + dj)) offsets"

definition count_adjacent_mines :: "minesweeper_board \<Rightarrow> cell \<Rightarrow> int" where
  "count_adjacent_mines b p =
     int (length (filter (\<lambda>n. in_range b n \<and> board b n = -1) (shifted p)))"

definition get_neighbors :: "minesweeper_board \<Rightarrow> cell \<Rightarrow> cell list" where
  "get_neighbors b p = filter (in_range b) (shifted p)"

text \<open>
  One step of the two recount loops: a cell that is not a mine gets its count.
  The array is indexed with the cell as given (negative indices wrap), the count is
  taken around the cell as given.
\<close>

definition recount :: "cell \<Rightarrow> minesweeper_board \<Rightarrow> minesweeper_board" where
  "recount p b =
     (if board b (at b p) \<noteq> -1
      then b\<lparr>board := (board b)(at b p := count_adjacent_mines b p)\<rparr>
      else b)"

definition set_mine :: "cell \<Rightarrow> minesweeper_board \<Rightarrow> minesweeper_board" where
  "set_mine p b = b\<lparr>board := (board b)(p := -1)\<rparr>"

text \<open>
  \<^verbatim>\<open>place_mines_randomly\<close>. The list \<open>mine_positions\<close> is the value that
  \<^verbatim>\<open>random.sample(positions, num_mines)\<close> returned.
\<close>

definition place_mines_randomly :: "minesweeper_board \<Rightarrow> cell list \<Rightarrow> minesweeper_board" where
  "place_mines_randomly b mine_positions =
     fold recount (positions b) (fold set_mine mine_positions b)"

text \<open>
  What \<^verbatim>\<open>random.sample(population, k)\<close> may return: \<open>k\<close> elements at distinct
  places of the population (here the population has no duplicates).
\<close>

definition is_sample :: "cell list \<Rightarrow> int \<Rightarrow> cell list \<Rightarrow> bool" where
  "is_sample population k xs \<longleftrightarrow>
     distinct xs \<and> set xs \<subseteq> set population \<and> int (length xs) = k"

text \<open>
  \<^verbatim>\<open>MinesweeperBoard.__init__\<close>. The constructor checks nothing itself: it fails
  only where the libraries do. \<^verbatim>\<open>np.zeros((height, width))\<close> raises ValueError for
  a negative dimension; \<^verbatim>\<open>random.sample\<close> raises ValueError when the sample is
  larger than the population or negative.
\<close>

definition fresh_board :: "int \<Rightarrow> int \<Rightarrow> int \<Rightarrow> minesweeper_board" where
  "fresh_board w h n =
     \<lparr>width = w, height = h, num_mines = n, board = (\<lambda>_. 0),
      visible = (\<lambda>_. False), marked = (\<lambda>_. False),
      first_move = True, game_over = False, won = False\<rparr>"

definition MinesweeperBoard ::
  "int \<Rightarrow> int \<Rightarrow> int \<Rightarrow> cell list \<Rightarrow> error + minesweeper_board" where
  "MinesweeperBoard w h n mine_positions =
     (if h < 0 \<or> w < 0 then Inl ValueError
      else if n < 0 \<or> int (length (positions (fresh_board w h n))) < n then Inl ValueError
      else Inr (place_mines_randomly (fresh_board w h n) mine_positions))"

definition mark_mine :: "minesweeper_board \<Rightarrow> int \<Rightarrow> int \<Rightarrow> error + minesweeper_board" where
  "mark_mine b i j =
     (if in_bounds b (i, j) then Inr (b\<lparr>marked := (marked b)(at b (i, j) := True)\<rparr>)
      else Inl IndexError)"

text \<open>\<^verbatim>\<open>np.sum(self.visible)\<close>\<close>

definition visible_count :: "minesweeper_board \<Rightarrow> int" where
  "visible_count b = int (length (filter (visible b) (positions b)))"

definition mine_count :: "minesweeper_board \<Rightarrow> int" where
  "mine_count b = int (length (filter (\<lambda>p. board b p = -1) (positions b)))"

subsection \<open>probe\<close>

text \<open>
  Lines 65 to 70: the mine of the probed cell \<open>p\<close> goes to the cell \<open>q\<close>, then the
  counts of the neighbours of both and of the two cells are taken again.
\<close>

definition relocate :: "minesweeper_board \<Rightarrow> cell \<Rightarrow> cell \<Rightarrow> minesweeper_board" where
  "relocate b p q =
     fold recount (get_neighbors b p @ get_neighbors b q @ [p, q])
       (b\<lparr>board := ((board b)(at b p := 0))(q := -1)\<rparr>)"

text \<open>The inner loop over \<open>nj\<close>: it stops at the first cell of the row that is no mine.\<close>

fun scan_row :: "minesweeper_board \<Rightarrow> cell \<Rightarrow> int \<Rightarrow> int list \<Rightarrow> minesweeper_board" where
  "scan_row b p ni [] = b"
| "scan_row b p ni (nj # njs) =
     (if board b (ni, nj) \<noteq> -1 then relocate b p (ni, nj) else scan_row b p ni njs)"

text \<open>The outer loop over \<open>ni\<close>: it stops once the probed cell is no mine any more.\<close>

fun scan_rows :: "minesweeper_board \<Rightarrow> cell \<Rightarrow> int list \<Rightarrow> minesweeper_board" where
  "scan_rows b p [] = b"
| "scan_rows b p (ni # nis) =
     (let b' = scan_row b p ni [0 .. width b - 1]
      in if board b' (at b' p) \<noteq> -1 then b' else scan_rows b' p nis)"

definition first_move_swap :: "minesweeper_board \<Rightarrow> cell \<Rightarrow> minesweeper_board" where
  "first_move_swap b p =
     (if board b (at b p) = -1 then scan_rows b p [0 .. height b - 1] else b)"

text \<open>
  The body of the loop over the neighbours of a dequeued cell; the state is the board
  and the queue.
\<close>

fun reveal :: "cell \<Rightarrow> minesweeper_board \<times> cell list \<Rightarrow> minesweeper_board \<times> cell list" where
  "reveal n (b, queue) =
     (if \<not> visible b n \<and> \<not> marked b n
      then (b\<lparr>visible := (visible b)(n := True)\<rparr>,
            if board b n = 0 then queue @ [n] else queue)
      else (b, queue))"

definition unseen :: "minesweeper_board \<Rightarrow> nat" where
  "unseen b = length (filter (\<lambda>p. \<not> visible b p) (positions b))"

text \<open>The flood fill ends: every pass either shortens the queue or makes a cell visible.\<close>

lemma reveal_dims: "reveal n (b, q) = (b', q') \<Longrightarrow> width b' = width b \<and> height b' = height b"
  by (auto split: if_splits)

lemma positions_reveal: "reveal n (b, q) = (b', q') \<Longrightarrow> positions b' = positions b"
  by (auto simp: positions_def split: if_splits)

lemma filter_upd_less:
  "n \<in> set xs \<Longrightarrow> \<not> vis n \<Longrightarrow>
   length (filter (\<lambda>p. \<not> (vis(n := True)) p) xs) < length (filter (\<lambda>p. \<not> vis p) xs)"
proof (induction xs)
  case Nil then show ?case by simp
next
  case (Cons x xs)
  have le: "length (filter (\<lambda>p. \<not> (vis(n := True)) p) xs) \<le> length (filter (\<lambda>p. \<not> vis p) xs)"
    by (induction xs) auto
  show ?case
  proof (cases "x = n")
    case True
    with Cons.prems le show ?thesis by simp
  next
    case False
    with Cons show ?thesis by auto
  qed
qed

lemma reveal_measure:
  assumes "n \<in> set (positions b)" "reveal n (b, q) = (b', q')"
  shows "unseen b' + length q' \<le> unseen b + length q"
proof (cases "\<not> visible b n \<and> \<not> marked b n")
  case True
  then have b': "b' = b\<lparr>visible := (visible b)(n := True)\<rparr>" and "length q' \<le> Suc (length q)"
    using assms(2) by (auto split: if_splits)
  moreover have "unseen b' < unseen b"
    using filter_upd_less[OF assms(1), of "visible b"] True
    by (simp add: unseen_def b' positions_def)
  ultimately show ?thesis by simp
next
  case False
  then show ?thesis using assms(2) by auto
qed

lemma fold_reveal_measure:
  "set ns \<subseteq> set (positions b) \<Longrightarrow> fold reveal ns (b, q) = (b', q') \<Longrightarrow>
   unseen b' + length q' \<le> unseen b + length q"
proof (induction ns arbitrary: b q)
  case Nil then show ?case by simp
next
  case (Cons n ns)
  obtain b1 q1 where r: "reveal n (b, q) = (b1, q1)" by (cases "reveal n (b, q)")
  have p: "positions b1 = positions b" using positions_reveal[OF r] .
  have "unseen b1 + length q1 \<le> unseen b + length q"
    using reveal_measure[OF _ r] Cons.prems(1) by simp
  moreover have "unseen b' + length q' \<le> unseen b1 + length q1"
    using Cons.IH[of b1 q1] Cons.prems p r by simp
  ultimately show ?case by simp
qed

lemma in_range_positions: "p \<in> set (positions b) \<longleftrightarrow> in_range b p"
  by (cases p) (auto simp: positions_def in_range_def)

lemma get_neighbors_positions: "set (get_neighbors b p) \<subseteq> set (positions b)"
  by (auto simp: get_neighbors_def in_range_positions)

text \<open>The \<^verbatim>\<open>while queue\<close> loop of probe.\<close>

function flood :: "minesweeper_board \<Rightarrow> cell list \<Rightarrow> minesweeper_board" where
  "flood b [] = b"
| "flood b (p # queue) =
     (case fold reveal (get_neighbors b p) (b, queue) of (b', queue') \<Rightarrow> flood b' queue')"
  by pat_completeness auto
termination
  apply (relation "measure (\<lambda>(b, queue). unseen b + length queue)")
   apply simp
  subgoal for b p queue b' queue'
    using fold_reveal_measure[OF get_neighbors_positions, of b p queue b' queue']
    by (drule_tac sym) simp
  done


text \<open>
  \<^verbatim>\<open>probe(i, j)\<close> returns the boolean of the source and the board after the call.
  The first array access, \<^verbatim>\<open>self.board[i, j]\<close>, raises IndexError for a cell
  outside the arrays; the exception leaves the method, so no board is returned then.
\<close>

definition probe :: "minesweeper_board \<Rightarrow> int \<Rightarrow> int \<Rightarrow> error + bool \<times> minesweeper_board" where
  "probe b0 i j =
     (if \<not> in_bounds b0 (i, j) then Inl IndexError
      else
        let b1 = (if first_move b0 then first_move_swap (b0\<lparr>first_move := False\<rparr>) (i, j)
                  else b0)
        in if board b1 (at b1 (i, j)) = -1 then Inr (False, b1\<lparr>game_over := True\<rparr>)
           else
             let b2 = b1\<lparr>visible := (visible b1)(at b1 (i, j) := True)\<rparr>;
                 b3 = (if board b2 (at b2 (i, j)) = 0 then flood b2 [(i, j)] else b2)
             in Inr (True,
                  if visible_count b3 = width b3 * height b3 - num_mines b3
                  then b3\<lparr>won := True\<rparr> else b3))"

section \<open>Properties of the board\<close>

lemma at_in_range: "in_range b p \<Longrightarrow> at b p = p"
  by (cases p) (simp add: at_def in_range_def norm_index_def)

lemma in_range_in_bounds: "in_range b p \<Longrightarrow> in_bounds b p"
  by (auto simp: in_range_def in_bounds_def)

lemma distinct_positions: "distinct (positions b)"
  by (simp add: positions_def distinct_product)

lemma length_positions:
  "0 \<le> height b \<Longrightarrow> 0 \<le> width b \<Longrightarrow> int (length (positions b)) = width b * height b"
  by (simp add: positions_def nat_mult_distrib mult.commute)

definition same_mines :: "minesweeper_board \<Rightarrow> minesweeper_board \<Rightarrow> bool" where
  "same_mines b b' \<longleftrightarrow>
     width b' = width b \<and> height b' = height b \<and> (\<forall>p. board b' p = -1 \<longleftrightarrow> board b p = -1)"

lemma same_mines_refl: "same_mines b b"
  by (simp add: same_mines_def)

lemma same_mines_trans: "same_mines a b \<Longrightarrow> same_mines b c \<Longrightarrow> same_mines a c"
  by (simp add: same_mines_def)

lemma same_mines_in_range: "same_mines b b' \<Longrightarrow> in_range b' = in_range b"
  by (auto simp: same_mines_def in_range_def fun_eq_iff)

lemma same_mines_at: "same_mines b b' \<Longrightarrow> at b' = at b"
  by (auto simp: same_mines_def at_def fun_eq_iff)

lemma same_mines_count:
  "same_mines b b' \<Longrightarrow> count_adjacent_mines b' p = count_adjacent_mines b p"
  by (simp add: count_adjacent_mines_def same_mines_in_range)
    (simp add: same_mines_def del: split_paired_All)

lemma same_mines_positions: "same_mines b b' \<Longrightarrow> positions b' = positions b"
  by (simp add: same_mines_def positions_def)

lemma same_mines_mine_count: "same_mines b b' \<Longrightarrow> mine_count b' = mine_count b"
  by (simp add: mine_count_def same_mines_positions)
    (simp add: same_mines_def del: split_paired_All)

lemma count_adjacent_mines_nonneg: "0 \<le> count_adjacent_mines b p"
  by (simp add: count_adjacent_mines_def)

lemma recount_same_mines: "same_mines b (recount p b)"
  using count_adjacent_mines_nonneg[of b p]
  by (auto simp: recount_def same_mines_def)

lemma fold_recount_same_mines: "same_mines b (fold recount cs b)"
proof (induction cs arbitrary: b)
  case Nil show ?case by (simp add: same_mines_refl)
next
  case (Cons c cs)
  show ?case using same_mines_trans[OF recount_same_mines Cons.IH] by simp
qed

lemma recount_other_fields:
  "visible (recount p b) = visible b \<and> marked (recount p b) = marked b \<and>
   num_mines (recount p b) = num_mines b \<and> first_move (recount p b) = first_move b \<and>
   game_over (recount p b) = game_over b \<and> won (recount p b) = won b"
  by (simp add: recount_def)

lemma fold_recount_other_fields:
  "visible (fold recount cs b) = visible b \<and> marked (fold recount cs b) = marked b \<and>
   num_mines (fold recount cs b) = num_mines b \<and> first_move (fold recount cs b) = first_move b \<and>
   game_over (fold recount cs b) = game_over b \<and> won (fold recount cs b) = won b"
  by (induction cs arbitrary: b) (simp_all add: recount_other_fields)

lemma recount_board:
  "at b x = x \<Longrightarrow>
   board (recount x b) c =
     (if c = x \<and> board b x \<noteq> -1 then count_adjacent_mines b x else board b c)"
  by (simp add: recount_def)

text \<open>After the recount loop, a cell of the list that is no mine holds its count.\<close>

lemma fold_recount_counts:
  "\<forall>c \<in> set cs. in_range b c \<Longrightarrow> c \<in> set cs \<Longrightarrow> board b c \<noteq> -1 \<Longrightarrow>
   board (fold recount cs b) c = count_adjacent_mines b c"
proof (induction cs arbitrary: b rule: rev_induct)
  case Nil then show ?case by simp
next
  case (snoc x xs)
  define b1 where "b1 = fold recount xs b"
  have sm: "same_mines b b1" unfolding b1_def by (rule fold_recount_same_mines)
  have atx: "at b1 x = x" using snoc.prems(1) at_in_range[of b x] same_mines_at[OF sm] by simp
  have cnt: "count_adjacent_mines b1 x = count_adjacent_mines b x" by (rule same_mines_count[OF sm])
  have step: "fold recount (xs @ [x]) b = recount x b1" by (simp add: b1_def)
  show ?case
  proof (cases "c = x")
    case True
    have "board b1 x \<noteq> -1"
      using sm snoc.prems(3) True by (simp add: same_mines_def del: split_paired_All)
    then show ?thesis unfolding step using True cnt by (simp add: recount_board[OF atx])
  next
    case False
    then have "c \<in> set xs" using snoc.prems(2) by simp
    then have "board b1 c = count_adjacent_mines b c" using snoc by (simp add: b1_def)
    then show ?thesis unfolding step using False by (simp add: recount_board[OF atx])
  qed
qed

lemma fold_recount_untouched:
  "\<forall>c \<in> set cs. in_range b c \<Longrightarrow> p \<notin> set cs \<Longrightarrow> board (fold recount cs b) p = board b p"
proof (induction cs arbitrary: b)
  case Nil then show ?case by simp
next
  case (Cons c cs)
  have sm: "same_mines b (recount c b)" by (rule recount_same_mines)
  have "board (fold recount cs (recount c b)) p = board (recount c b) p"
    using Cons.IH[of "recount c b"] Cons.prems same_mines_in_range[OF sm] by simp
  moreover have "board (recount c b) p = board b p"
    using Cons.prems at_in_range[of b c] by (simp add: recount_board)
  ultimately show ?case by simp
qed

lemma fold_set_mine_board:
  "board (fold set_mine ms b) p = (if p \<in> set ms then -1 else board b p)"
  by (induction ms arbitrary: b) (auto simp: set_mine_def)

lemma fold_set_mine_fields:
  "width (fold set_mine ms b) = width b \<and> height (fold set_mine ms b) = height b \<and>
   num_mines (fold set_mine ms b) = num_mines b"
  by (induction ms arbitrary: b) (auto simp: set_mine_def)

lemma length_filter_mem:
  "distinct xs \<Longrightarrow> distinct ms \<Longrightarrow> set ms \<subseteq> set xs \<Longrightarrow>
   length (filter (\<lambda>p. p \<in> set ms) xs) = length ms"
proof -
  assume d: "distinct xs" "distinct ms" and s: "set ms \<subseteq> set xs"
  have "length (filter (\<lambda>p. p \<in> set ms) xs) = card (set (filter (\<lambda>p. p \<in> set ms) xs))"
    using d(1) distinct_card[of "filter (\<lambda>p. p \<in> set ms) xs"] by simp
  also have "set (filter (\<lambda>p. p \<in> set ms) xs) = set ms" using s by auto
  also have "card (set ms) = length ms" using d(2) by (simp add: distinct_card)
  finally show ?thesis .
qed

lemma place_mines_mine_count:
  assumes "is_sample (positions b) k ms" "\<forall>p. board b p \<noteq> -1"
  shows "mine_count (place_mines_randomly b ms) = k"
proof -
  let ?b1 = "fold set_mine ms b"
  have pos: "positions ?b1 = positions b" by (simp add: positions_def fold_set_mine_fields)
  have "mine_count (place_mines_randomly b ms) = mine_count ?b1"
    unfolding place_mines_randomly_def pos[symmetric]
    by (rule same_mines_mine_count[OF fold_recount_same_mines])
  also have "\<dots> = int (length (filter (\<lambda>p. p \<in> set ms) (positions b)))"
    using assms(2) by (simp add: mine_count_def pos fold_set_mine_board del: split_paired_All)
  also have "\<dots> = k"
    using assms(1) length_filter_mem[OF distinct_positions, of ms b]
    by (simp add: is_sample_def)
  finally show ?thesis .
qed

subsection \<open>The flood fill\<close>

lemma reveal_fields:
  "reveal n (b, q) = (b', q') \<Longrightarrow>
   board b' = board b \<and> marked b' = marked b \<and> width b' = width b \<and> height b' = height b \<and>
   num_mines b' = num_mines b \<and> first_move b' = first_move b \<and>
   game_over b' = game_over b \<and> won b' = won b"
  by (auto split: if_splits)

lemma fold_reveal_fields:
  "fold reveal ns (b, q) = (b', q') \<Longrightarrow>
   board b' = board b \<and> marked b' = marked b \<and> width b' = width b \<and> height b' = height b \<and>
   num_mines b' = num_mines b \<and> first_move b' = first_move b \<and>
   game_over b' = game_over b \<and> won b' = won b"
proof (induction ns arbitrary: b q)
  case Nil then show ?case by simp
next
  case (Cons n ns)
  obtain b1 q1 where r: "reveal n (b, q) = (b1, q1)" by (cases "reveal n (b, q)")
  from Cons.IH[of b1 q1] Cons.prems r reveal_fields[OF r] show ?case by simp
qed

lemma fold_reveal_visible:
  "fold reveal ns (b, q) = (b', q') \<Longrightarrow>
   visible b' c \<longleftrightarrow> visible b c \<or> (c \<in> set ns \<and> \<not> marked b c)"
proof (induction ns arbitrary: b q)
  case Nil then show ?case by simp
next
  case (Cons n ns)
  obtain b1 q1 where r: "reveal n (b, q) = (b1, q1)" by (cases "reveal n (b, q)")
  have m: "marked b1 = marked b" using reveal_fields[OF r] by simp
  have v: "visible b1 c \<longleftrightarrow> visible b c \<or> (c = n \<and> \<not> marked b c)"
    using r by (auto split: if_splits)
  from Cons.IH[of b1 q1] Cons.prems r have "visible b' c \<longleftrightarrow> visible b1 c \<or> (c \<in> set ns \<and> \<not> marked b1 c)"
    by simp
  then show ?case using m v by auto
qed

lemma fold_reveal_queue:
  "fold reveal ns (b, q) = (b', q') \<Longrightarrow>
   set q' \<subseteq> set q \<union> {n \<in> set ns. board b n = 0}"
proof (induction ns arbitrary: b q)
  case Nil then show ?case by simp
next
  case (Cons n ns)
  obtain b1 q1 where r: "reveal n (b, q) = (b1, q1)" by (cases "reveal n (b, q)")
  have f: "board b1 = board b" using reveal_fields[OF r] by simp
  have q1: "set q1 \<subseteq> set q \<union> {x. x = n \<and> board b n = 0}"
    using r by (auto split: if_splits)
  from Cons.IH[of b1 q1] Cons.prems r have "set q' \<subseteq> set q1 \<union> {n \<in> set ns. board b1 n = 0}"
    by simp
  then show ?case using q1 f by auto
qed

lemma flood_fields:
  "board (flood b q) = board b \<and> marked (flood b q) = marked b \<and>
   width (flood b q) = width b \<and> height (flood b q) = height b \<and>
   num_mines (flood b q) = num_mines b \<and> first_move (flood b q) = first_move b \<and>
   game_over (flood b q) = game_over b \<and> won (flood b q) = won b"
proof (induction b q rule: flood.induct)
  case (1 b) show ?case by simp
next
  case (2 b p queue)
  obtain b1 q1 where r: "fold reveal (get_neighbors b p) (b, queue) = (b1, q1)"
    by (cases "fold reveal (get_neighbors b p) (b, queue)")
  from 2[OF r[symmetric]] fold_reveal_fields[OF r] r show ?case by simp
qed

lemma flood_visible_mono: "visible b c \<Longrightarrow> visible (flood b q) c"
proof (induction b q rule: flood.induct)
  case (1 b) then show ?case by simp
next
  case (2 b p queue)
  obtain b1 q1 where r: "fold reveal (get_neighbors b p) (b, queue) = (b1, q1)"
    by (cases "fold reveal (get_neighbors b p) (b, queue)")
  have "visible b1 c" using fold_reveal_visible[OF r] 2(2) by simp
  from 2(1)[OF r[symmetric] this] r show ?case by simp
qed

definition counts_ok :: "minesweeper_board \<Rightarrow> bool" where
  "counts_ok b \<longleftrightarrow>
     (\<forall>p. in_range b p \<and> board b p \<noteq> -1 \<longrightarrow> board b p = count_adjacent_mines b p)"

definition no_visible_mine :: "minesweeper_board \<Rightarrow> bool" where
  "no_visible_mine b \<longleftrightarrow> (\<forall>p. in_range b p \<and> visible b p \<longrightarrow> board b p \<noteq> -1)"

lemma zero_count_neighbors:
  assumes "count_adjacent_mines b c = 0" "n \<in> set (get_neighbors b c)"
  shows "board b n \<noteq> -1"
proof -
  have "filter (\<lambda>n. in_range b n \<and> board b n = -1) (shifted c) = []"
    using assms(1) by (simp add: count_adjacent_mines_def)
  then have "\<forall>n \<in> set (shifted c). \<not> (in_range b n \<and> board b n = -1)"
    by (simp add: filter_empty_conv)
  then show ?thesis using assms(2) by (auto simp: get_neighbors_def)
qed

lemma flood_no_visible_mine:
  "counts_ok b \<Longrightarrow> no_visible_mine b \<Longrightarrow> \<forall>c \<in> set q. in_range b c \<and> board b c = 0 \<Longrightarrow>
   no_visible_mine (flood b q)"
proof (induction b q rule: flood.induct)
  case (1 b) then show ?case by simp
next
  case (2 b p queue)
  obtain b1 q1 where r: "fold reveal (get_neighbors b p) (b, queue) = (b1, q1)"
    by (cases "fold reveal (get_neighbors b p) (b, queue)")
  note f = fold_reveal_fields[OF r]
  have p: "in_range b p" "board b p = 0" using 2(4) by auto
  then have cnt: "count_adjacent_mines b p = 0"
    using 2(2) by (auto simp: counts_ok_def simp del: split_paired_All)
  have nb: "\<forall>n \<in> set (get_neighbors b p). board b n \<noteq> -1"
    using zero_count_neighbors[OF cnt] by blast
  have ir: "in_range b1 = in_range b" using f by (auto simp: in_range_def fun_eq_iff)
  have c1: "counts_ok b1"
    using 2(2) f ir by (simp add: counts_ok_def count_adjacent_mines_def del: split_paired_All)
  have v1: "no_visible_mine b1"
    unfolding no_visible_mine_def
  proof (intro allI impI)
    fix c assume a: "in_range b1 c \<and> visible b1 c"
    then have "visible b c \<or> c \<in> set (get_neighbors b p)"
      using fold_reveal_visible[OF r, of c] by auto
    then show "board b1 c \<noteq> -1"
      using a 2(3) nb f ir by (auto simp: no_visible_mine_def simp del: split_paired_All)
  qed
  have q1: "\<forall>c \<in> set q1. in_range b1 c \<and> board b1 c = 0"
  proof
    fix c assume "c \<in> set q1"
    then have "c \<in> set queue \<or> (c \<in> set (get_neighbors b p) \<and> board b c = 0)"
      using fold_reveal_queue[OF r] by auto
    then show "in_range b1 c \<and> board b1 c = 0"
      using 2(4) f ir by (auto simp: get_neighbors_def)
  qed
  from 2(1)[OF r[symmetric] c1 v1 q1] r show ?case by simp
qed

lemma shifted_iff:
  "(k, l) \<in> set (shifted (i, j)) \<longleftrightarrow>
   (k, l) \<noteq> (i, j) \<and> i - 1 \<le> k \<and> k \<le> i + 1 \<and> j - 1 \<le> l \<and> l \<le> j + 1"
  apply (simp add: offsets_def)
  apply presburger
  done

lemma shifted_sym: "n \<in> set (shifted c) \<longleftrightarrow> c \<in> set (shifted n)"
  by (cases n; cases c) (simp only: shifted_iff, auto)

lemma not_self_shifted: "c \<notin> set (shifted c)"
  by (cases c) (simp only: shifted_iff, simp)

lemma count_adjacent_mines_cong:
  assumes "width b' = width b" "height b' = height b"
    "\<forall>n \<in> set (shifted c). (board b' n = -1) = (board b n = -1)"
  shows "count_adjacent_mines b' c = count_adjacent_mines b c"
proof -
  have "in_range b' = in_range b" using assms(1,2) by (auto simp: in_range_def fun_eq_iff)
  moreover have "filter (\<lambda>n. in_range b n \<and> board b' n = -1) (shifted c)
      = filter (\<lambda>n. in_range b n \<and> board b n = -1) (shifted c)"
    using assms(3) by (intro filter_cong) auto
  ultimately show ?thesis by (simp add: count_adjacent_mines_def)
qed

text \<open>The board right after the two assignments of the swap.\<close>

definition swapped :: "minesweeper_board \<Rightarrow> cell \<Rightarrow> cell \<Rightarrow> minesweeper_board" where
  "swapped b p q = b\<lparr>board := ((board b)(at b p := 0))(q := -1)\<rparr>"

lemma relocate_swapped:
  "relocate b p q = fold recount (get_neighbors b p @ get_neighbors b q @ [p, q]) (swapped b p q)"
  by (simp add: relocate_def swapped_def)

lemma relocate_same_mines: "same_mines (swapped b p q) (relocate b p q)"
  unfolding relocate_swapped by (rule fold_recount_same_mines)

lemma relocate_mines:
  "board (relocate b p q) c = -1 \<longleftrightarrow> c = q \<or> (c \<noteq> at b p \<and> board b c = -1)"
proof -
  have "board (relocate b p q) c = -1 \<longleftrightarrow> board (swapped b p q) c = -1"
    using relocate_same_mines[of b p q] by (simp add: same_mines_def del: split_paired_All)
  then show ?thesis by (auto simp: swapped_def)
qed

lemma relocate_dims:
  "width (relocate b p q) = width b \<and> height (relocate b p q) = height b"
  using relocate_same_mines[of b p q] by (simp add: same_mines_def swapped_def)

lemma relocate_other_fields:
  "visible (relocate b p q) = visible b \<and> marked (relocate b p q) = marked b \<and>
   num_mines (relocate b p q) = num_mines b \<and> first_move (relocate b p q) = first_move b \<and>
   game_over (relocate b p q) = game_over b \<and> won (relocate b p q) = won b"
proof -
  define L where "L = get_neighbors b p @ get_neighbors b q @ [p, q]"
  have r: "relocate b p q = fold recount L (swapped b p q)"
    by (simp add: relocate_swapped L_def)
  show ?thesis
    unfolding r using fold_recount_other_fields[of L "swapped b p q"] by (simp add: swapped_def)
qed

lemma relocate_counts_ok:
  assumes ok: "counts_ok b" and p: "in_range b p" and q: "in_range b q"
  shows "counts_ok (relocate b p q)"
  unfolding counts_ok_def
proof (intro allI impI)
  fix c
  let ?L = "get_neighbors b p @ get_neighbors b q @ [p, q]"
  let ?s = "swapped b p q"
  let ?r = "relocate b p q"
  assume a: "in_range ?r c \<and> board ?r c \<noteq> -1"
  have sm: "same_mines ?s ?r" by (rule relocate_same_mines)
  have dims: "width ?s = width b" "height ?s = height b" by (simp_all add: swapped_def)
  have irs: "in_range ?s = in_range b" using dims by (auto simp: in_range_def fun_eq_iff)
  have irr: "in_range ?r = in_range b" using same_mines_in_range[OF sm] irs by simp
  have L: "\<forall>x \<in> set ?L. in_range ?s x" using p q irs by (auto simp: get_neighbors_def)
  have cs: "board ?s c \<noteq> -1" using a sm by (simp add: same_mines_def del: split_paired_All)
  have cnt: "count_adjacent_mines ?r c = count_adjacent_mines ?s c" by (rule same_mines_count[OF sm])
  have atp: "at b p = p" by (rule at_in_range[OF p])
  show "board ?r c = count_adjacent_mines ?r c"
  proof (cases "c \<in> set ?L")
    case True
    then show ?thesis
      using fold_recount_counts[OF L True cs] cnt by (simp add: relocate_swapped)
  next
    case False
    then have ne: "c \<noteq> p" "c \<noteq> q" and nn: "c \<notin> set (get_neighbors b p)" "c \<notin> set (get_neighbors b q)"
      by auto
    have cin: "in_range b c" using a irr by simp
    have "p \<notin> set (shifted c)" "q \<notin> set (shifted c)"
      using nn cin shifted_sym[of c p] shifted_sym[of c q] by (auto simp: get_neighbors_def)
    then have "\<forall>n \<in> set (shifted c). (board ?s n = -1) = (board b n = -1)"
      using atp by (auto simp: swapped_def)
    then have c2: "count_adjacent_mines ?s c = count_adjacent_mines b c"
      using count_adjacent_mines_cong[of ?s b c] dims by simp
    have "board ?r c = board ?s c"
      using fold_recount_untouched[OF L False] by (simp add: relocate_swapped)
    also have "\<dots> = board b c" using ne atp by (simp add: swapped_def)
    also have "\<dots> = count_adjacent_mines b c"
      using ok cin cs ne atp by (simp add: counts_ok_def swapped_def del: split_paired_All)
    finally show ?thesis using cnt c2 by simp
  qed
qed

lemma distinct_length_filter_card:
  "distinct xs \<Longrightarrow> length (filter P xs) = card {x \<in> set xs. P x}"
proof -
  assume "distinct xs"
  then have "length (filter P xs) = card (set (filter P xs))"
    using distinct_card[of "filter P xs"] by simp
  also have "set (filter P xs) = {x \<in> set xs. P x}" by auto
  finally show ?thesis .
qed

lemma mine_count_card: "mine_count b = int (card {x \<in> set (positions b). board b x = -1})"
  unfolding mine_count_def
  using distinct_length_filter_card[OF distinct_positions, of "\<lambda>p. board b p = -1" b] by simp

lemma relocate_mine_count:
  assumes p: "in_range b p" and q: "in_range b q" and mp: "board b p = -1" and mq: "board b q \<noteq> -1"
  shows "mine_count (relocate b p q) = mine_count b"
proof -
  let ?r = "relocate b p q"
  have atp: "at b p = p" by (rule at_in_range[OF p])
  have pos: "positions ?r = positions b" using relocate_dims[of b p q] by (simp add: positions_def)
  define M where "M = {x \<in> set (positions b). board b x = -1}"
  have fin: "finite M" by (simp add: M_def)
  have pm: "p \<in> M" using p mp by (simp add: M_def in_range_positions)
  have qm: "q \<notin> M" using mq by (simp add: M_def)
  have qp: "q \<in> set (positions b)" using q by (simp add: in_range_positions)
  have "{x \<in> set (positions ?r). board ?r x = -1} = insert q (M - {p})"
  proof (rule set_eqI)
    fix x
    show "x \<in> {x \<in> set (positions ?r). board ?r x = -1} \<longleftrightarrow> x \<in> insert q (M - {p})"
      using qp by (auto simp only: pos relocate_mines atp M_def mem_Collect_eq insert_iff Diff_iff singleton_iff)
  qed
  moreover have "card (insert q (M - {p})) = card M"
  proof -
    have "card (M - {p}) = card M - 1" using pm fin by simp
    moreover have "card M > 0" using pm fin by (auto simp: card_gt_0_iff)
    moreover have "card (insert q (M - {p})) = Suc (card (M - {p}))"
      using qm fin by simp
    ultimately show ?thesis by simp
  qed
  ultimately show ?thesis
    by (simp only: mine_count_card M_def)
qed

lemma find_append_case:
  "find P (xs @ ys) = (case find P xs of None \<Rightarrow> find P ys | Some x \<Rightarrow> Some x)"
  by (induction xs) auto

lemma find_map_Pair:
  "find P (map (Pair i) xs) = map_option (Pair i) (find (\<lambda>j. P (i, j)) xs)"
  by (induction xs) auto

lemma scan_row_find:
  "scan_row b p ni cols =
     (case find (\<lambda>nj. board b (ni, nj) \<noteq> -1) cols of None \<Rightarrow> b | Some nj \<Rightarrow> relocate b p (ni, nj))"
  by (induction cols) auto

lemma relocate_probed_no_mine:
  assumes "board b (at b p) = -1" "board b q \<noteq> -1"
  shows "board (relocate b p q) (at (relocate b p q) p) \<noteq> -1"
proof -
  have "at (relocate b p q) p = at b p" using relocate_dims[of b p q] by (simp add: at_def)
  moreover have "at b p \<noteq> q" using assms by auto
  ultimately show ?thesis using relocate_mines[of b p q "at b p"] by simp
qed

text \<open>
  The two nested loops find the first cell, in row-major order, that is no mine, and
  move the mine there; they change nothing when every cell is a mine.
\<close>

lemma scan_rows_find:
  assumes "board b (at b p) = -1"
  shows "scan_rows b p rows =
     (case find (\<lambda>c. board b c \<noteq> -1) (List.product rows [0 .. width b - 1]) of
        None \<Rightarrow> b | Some q \<Rightarrow> relocate b p q)"
proof (induction rows)
  case Nil show ?case by simp
next
  case (Cons i rows)
  let ?cols = "[0 .. width b - 1]"
  show ?case
  proof (cases "find (\<lambda>nj. board b (i, nj) \<noteq> -1) ?cols")
    case None
    then have "scan_row b p i ?cols = b" by (simp add: scan_row_find)
    then show ?thesis using None assms Cons
      by (simp add: find_append_case find_map_Pair Let_def)
  next
    case (Some nj)
    then have q: "board b (i, nj) \<noteq> -1" by (auto simp: find_Some_iff)
    have r: "scan_row b p i ?cols = relocate b p (i, nj)" using Some by (simp add: scan_row_find)
    have "board (relocate b p (i, nj)) (at (relocate b p (i, nj)) p) \<noteq> -1"
      by (rule relocate_probed_no_mine[OF assms q])
    then show ?thesis using Some r
      by (simp add: find_append_case find_map_Pair Let_def)
  qed
qed

lemma first_move_swap_find:
  "first_move_swap b p =
     (if board b (at b p) = -1
      then (case find (\<lambda>c. board b c \<noteq> -1) (positions b) of
              None \<Rightarrow> b | Some q \<Rightarrow> relocate b p q)
      else b)"
  by (simp add: first_move_swap_def scan_rows_find positions_def)


lemma find_no_mine_props:
  assumes "find (\<lambda>c. board b c \<noteq> -1) (positions b) = Some q"
  shows "in_range b q" "board b q \<noteq> -1"
  using assms by (auto simp: find_Some_iff in_range_positions[symmetric])

subsection \<open>The board the constructor returns\<close>

definition board_inv :: "minesweeper_board \<Rightarrow> bool" where
  "board_inv b \<longleftrightarrow>
     counts_ok b \<and> mine_count b = num_mines b \<and> (first_move b \<longrightarrow> (\<forall>p. \<not> visible b p))"

lemma place_mines_counts_ok: "counts_ok (place_mines_randomly b ms)"
  unfolding counts_ok_def
proof (intro allI impI)
  fix c
  let ?b1 = "fold set_mine ms b"
  let ?b2 = "place_mines_randomly b ms"
  assume a: "in_range ?b2 c \<and> board ?b2 c \<noteq> -1"
  have b2: "?b2 = fold recount (positions ?b1) ?b1"
    by (simp add: place_mines_randomly_def positions_def fold_set_mine_fields)
  have sm: "same_mines ?b1 ?b2" unfolding b2 by (rule fold_recount_same_mines)
  have c1: "in_range ?b1 c" using a same_mines_in_range[OF sm] by simp
  have c2: "board ?b1 c \<noteq> -1" using a sm by (simp add: same_mines_def del: split_paired_All)
  have "board ?b2 c = count_adjacent_mines ?b1 c"
    unfolding b2 using c1 c2 by (intro fold_recount_counts) (simp_all add: in_range_positions)
  then show "board ?b2 c = count_adjacent_mines ?b2 c" using same_mines_count[OF sm] by simp
qed

lemma place_mines_fields:
  "width (place_mines_randomly b ms) = width b \<and> height (place_mines_randomly b ms) = height b \<and>
   num_mines (place_mines_randomly b ms) = num_mines b \<and>
   visible (place_mines_randomly b ms) = visible b \<and> marked (place_mines_randomly b ms) = marked b \<and>
   first_move (place_mines_randomly b ms) = first_move b \<and>
   game_over (place_mines_randomly b ms) = game_over b \<and> won (place_mines_randomly b ms) = won b"
proof -
  let ?b1 = "fold set_mine ms b"
  have f: "visible ?b1 = visible b \<and> marked ?b1 = marked b \<and> first_move ?b1 = first_move b \<and>
           game_over ?b1 = game_over b \<and> won ?b1 = won b"
    by (induction ms arbitrary: b) (simp_all add: set_mine_def)
  have sm: "same_mines ?b1 (fold recount (positions b) ?b1)" by (rule fold_recount_same_mines)
  show ?thesis
    unfolding place_mines_randomly_def
    using fold_recount_other_fields[of "positions b" ?b1] f sm fold_set_mine_fields[of ms b]
    by (simp add: same_mines_def del: split_paired_All)
qed

lemma MinesweeperBoard_inv:
  assumes "MinesweeperBoard w h n ms = Inr b" "is_sample (positions (fresh_board w h n)) n ms"
  shows "board_inv b" "first_move b" "\<not> game_over b" "\<not> won b"
    "width b = w" "height b = h" "num_mines b = n" "\<forall>p. \<not> marked b p"
proof -
  have b: "b = place_mines_randomly (fresh_board w h n) ms"
    using assms(1) by (auto simp: MinesweeperBoard_def split: if_splits)
  note f = place_mines_fields[of "fresh_board w h n" ms]
  show "first_move b" "\<not> game_over b" "\<not> won b" "width b = w" "height b = h" "num_mines b = n"
    "\<forall>p. \<not> marked b p"
    using f by (simp_all add: b fresh_board_def)
  have "mine_count b = n"
    unfolding b using place_mines_mine_count[OF assms(2)] by (simp add: fresh_board_def)
  moreover have "\<forall>p. \<not> visible b p" using f by (simp add: b fresh_board_def)
  ultimately show "board_inv b"
    using place_mines_counts_ok[of "fresh_board w h n" ms] f
    by (simp add: board_inv_def b fresh_board_def)
qed

lemma at_dims: "width b' = width b \<Longrightarrow> height b' = height b \<Longrightarrow> at b' = at b"
  by (simp add: at_def fun_eq_iff)

lemma in_range_dims: "width b' = width b \<Longrightarrow> height b' = height b \<Longrightarrow> in_range b' = in_range b"
  by (simp add: in_range_def fun_eq_iff)

lemma counts_ok_cong:
  assumes "board b' = board b" "width b' = width b" "height b' = height b"
  shows "counts_ok b' = counts_ok b"
proof -
  have "in_range b' = in_range b" by (rule in_range_dims[OF assms(2,3)])
  then show ?thesis using assms(1) by (simp add: counts_ok_def count_adjacent_mines_def)
qed

lemma mine_count_cong:
  "board b' = board b \<Longrightarrow> width b' = width b \<Longrightarrow> height b' = height b \<Longrightarrow>
   mine_count b' = mine_count b"
  by (simp add: mine_count_def positions_def)

lemma no_visible_mine_cong:
  assumes "board b' = board b" "visible b' = visible b" "width b' = width b" "height b' = height b"
  shows "no_visible_mine b' = no_visible_mine b"
proof -
  have "in_range b' = in_range b" by (rule in_range_dims[OF assms(3,4)])
  then show ?thesis using assms(1,2) by (simp add: no_visible_mine_def)
qed

text \<open>Lines 57 to 73 of probe: what the board is after the first-move branch.\<close>

definition after_first_move :: "minesweeper_board \<Rightarrow> cell \<Rightarrow> minesweeper_board" where
  "after_first_move b p =
     (if first_move b then first_move_swap (b\<lparr>first_move := False\<rparr>) p else b)"

lemma probe_after_first_move:
  "probe b0 i j =
     (if \<not> in_bounds b0 (i, j) then Inl IndexError
      else
        let b1 = after_first_move b0 (i, j)
        in if board b1 (at b1 (i, j)) = -1 then Inr (False, b1\<lparr>game_over := True\<rparr>)
           else
             let b2 = b1\<lparr>visible := (visible b1)(at b1 (i, j) := True)\<rparr>;
                 b3 = (if board b2 (at b2 (i, j)) = 0 then flood b2 [(i, j)] else b2)
             in Inr (True,
                  if visible_count b3 = width b3 * height b3 - num_mines b3
                  then b3\<lparr>won := True\<rparr> else b3))"
  by (simp add: probe_def after_first_move_def)

lemma after_first_move_eq:
  assumes "in_range b p"
  shows "after_first_move b p =
     (if \<not> first_move b then b
      else if board b p \<noteq> -1 then b\<lparr>first_move := False\<rparr>
      else (case find (\<lambda>c. board b c \<noteq> -1) (positions b) of
              None \<Rightarrow> b\<lparr>first_move := False\<rparr>
            | Some q \<Rightarrow> relocate (b\<lparr>first_move := False\<rparr>) p q))"
proof -
  let ?b = "b\<lparr>first_move := False\<rparr>"
  have atp: "at ?b p = p" using at_in_range[of ?b p] assms by (simp add: in_range_def)
  have pos: "positions ?b = positions b" by (simp add: positions_def)
  show ?thesis
    by (simp add: after_first_move_def first_move_swap_find pos atp)
qed

text \<open>A property kept by clearing \<open>first_move\<close> and by a relocation is kept by the branch.\<close>

lemma after_first_move_induct:
  assumes "in_range b p"
    and "\<not> first_move b \<Longrightarrow> P b"
    and "P (b\<lparr>first_move := False\<rparr>)"
    and "\<And>q. find (\<lambda>c. board b c \<noteq> -1) (positions b) = Some q \<Longrightarrow> board b p = -1 \<Longrightarrow>
           P (relocate (b\<lparr>first_move := False\<rparr>) p q)"
  shows "P (after_first_move b p)"
proof (cases "find (\<lambda>c. board b c \<noteq> -1) (positions b)")
  case None
  then show ?thesis using assms(2,3) by (simp add: after_first_move_eq[OF assms(1)])
next
  case (Some q)
  then show ?thesis using assms(2,3) assms(4)[OF Some]
    by (simp add: after_first_move_eq[OF assms(1)])
qed

lemma after_first_move_fields:
  assumes "in_range b p"
  shows "width (after_first_move b p) = width b \<and> height (after_first_move b p) = height b \<and>
         num_mines (after_first_move b p) = num_mines b \<and>
         visible (after_first_move b p) = visible b \<and> marked (after_first_move b p) = marked b \<and>
         game_over (after_first_move b p) = game_over b \<and> won (after_first_move b p) = won b"
proof (rule after_first_move_induct[OF assms])
  fix q
  show "width (relocate (b\<lparr>first_move := False\<rparr>) p q) = width b \<and>
        height (relocate (b\<lparr>first_move := False\<rparr>) p q) = height b \<and>
        num_mines (relocate (b\<lparr>first_move := False\<rparr>) p q) = num_mines b \<and>
        visible (relocate (b\<lparr>first_move := False\<rparr>) p q) = visible b \<and>
        marked (relocate (b\<lparr>first_move := False\<rparr>) p q) = marked b \<and>
        game_over (relocate (b\<lparr>first_move := False\<rparr>) p q) = game_over b \<and>
        won (relocate (b\<lparr>first_move := False\<rparr>) p q) = won b"
    using relocate_dims[of "b\<lparr>first_move := False\<rparr>" p q]
      relocate_other_fields[of "b\<lparr>first_move := False\<rparr>" p q] by simp
qed simp_all

lemma after_first_move_not_first:
  assumes "in_range b p"
  shows "\<not> first_move (after_first_move b p)"
proof (rule after_first_move_induct[OF assms])
  fix q
  show "\<not> first_move (relocate (b\<lparr>first_move := False\<rparr>) p q)"
    using relocate_other_fields[of "b\<lparr>first_move := False\<rparr>" p q] by simp
qed simp_all

lemma after_first_move_counts_ok:
  assumes "in_range b p" "counts_ok b"
  shows "counts_ok (after_first_move b p)"
proof (rule after_first_move_induct[OF assms(1)])
  let ?b = "b\<lparr>first_move := False\<rparr>"
  show c: "counts_ok ?b" using assms(2) counts_ok_cong[of ?b b] by simp
  have p: "in_range ?b p" using assms(1) by (simp add: in_range_def)
  fix q assume "find (\<lambda>c. board b c \<noteq> -1) (positions b) = Some q"
  then have "in_range ?b q" using find_no_mine_props(1)[of b q] by (simp add: in_range_def)
  then show "counts_ok (relocate ?b p q)" by (rule relocate_counts_ok[OF c p])
qed (rule assms(2))

lemma after_first_move_mine_count:
  assumes "in_range b p"
  shows "mine_count (after_first_move b p) = mine_count b"
proof (rule after_first_move_induct[OF assms(1)])
  let ?b = "b\<lparr>first_move := False\<rparr>"
  show m: "mine_count ?b = mine_count b" using mine_count_cong[of ?b b] by simp
  have p: "in_range ?b p" using assms(1) by (simp add: in_range_def)
  fix q assume f: "find (\<lambda>c. board b c \<noteq> -1) (positions b) = Some q" and mp: "board b p = -1"
  have "in_range ?b q" "board ?b q \<noteq> -1"
    using find_no_mine_props[OF f] by (simp_all add: in_range_def)
  then show "mine_count (relocate ?b p q) = mine_count b"
    using relocate_mine_count[OF p, of q] mp m by simp
qed simp

lemma after_first_move_no_visible_mine:
  assumes "in_range b p" "no_visible_mine b" "first_move b \<longrightarrow> (\<forall>c. \<not> visible b c)"
  shows "no_visible_mine (after_first_move b p)"
proof (cases "first_move b")
  case False
  then show ?thesis using assms(2) by (simp add: after_first_move_def)
next
  case True
  then have "\<forall>c. \<not> visible (after_first_move b p) c"
    using after_first_move_fields[OF assms(1)] assms(3) by simp
  then show ?thesis by (simp add: no_visible_mine_def)
qed

lemma after_first_move_board:
  "\<not> first_move b \<or> board b (at b p) \<noteq> -1 \<Longrightarrow> board (after_first_move b p) = board b"
  by (auto simp: after_first_move_def first_move_swap_def at_def)

subsection \<open>Creating a board\<close>

text \<open>
  Claim C9, as the code has it. The constructor has no check of its own and no
  InvalidConfiguration: creating a board fails, with the ValueError of numpy or of
  \<^verbatim>\<open>random.sample\<close>, exactly when a dimension is negative, the mine count is
  negative or the mine count exceeds width * height. In every other case, a mine count
  equal to width * height and a dimension of zero included, creation succeeds, and
  exactly \<open>num_mines\<close> cells are mines.
\<close>

theorem board_creation:
  "(isl (MinesweeperBoard w h n ms) \<longleftrightarrow> w < 0 \<or> h < 0 \<or> n < 0 \<or> w * h < n) \<and>
   (is_sample (positions (fresh_board w h n)) n ms \<and> 0 \<le> w \<and> 0 \<le> h \<and> n \<le> w * h \<longrightarrow>
      \<not> isl (MinesweeperBoard w h n ms) \<and> mine_count (projr (MinesweeperBoard w h n ms)) = n)"
proof -
  have len: "0 \<le> w \<Longrightarrow> 0 \<le> h \<Longrightarrow> int (length (positions (fresh_board w h n))) = w * h"
    using length_positions[of "fresh_board w h n"] by (simp add: fresh_board_def)
  have fail: "isl (MinesweeperBoard w h n ms) \<longleftrightarrow> w < 0 \<or> h < 0 \<or> n < 0 \<or> w * h < n"
    using len by (auto simp: MinesweeperBoard_def)
  moreover have "mine_count (projr (MinesweeperBoard w h n ms)) = n"
    if "is_sample (positions (fresh_board w h n)) n ms" "0 \<le> w" "0 \<le> h" "n \<le> w * h"
  proof -
    have "0 \<le> n" using that(1) by (auto simp: is_sample_def)
    then have "MinesweeperBoard w h n ms = Inr (place_mines_randomly (fresh_board w h n) ms)"
      using that len by (simp add: MinesweeperBoard_def)
    then show ?thesis
      using place_mines_mine_count[OF that(1)] by (simp add: fresh_board_def)
  qed
  moreover have "0 \<le> n" if "is_sample (positions (fresh_board w h n)) n ms"
    using that by (auto simp: is_sample_def)
  ultimately show ?thesis by auto
qed

text \<open>The theorem at a board of width 2 and height 1 with one mine.\<close>

theorem board_creation_witness:
  "is_sample (positions (fresh_board 2 1 1)) 1 [(0, 1)] \<and>
   \<not> isl (MinesweeperBoard 2 1 1 [(0, 1)]) \<and>
   mine_count (projr (MinesweeperBoard 2 1 1 [(0, 1)])) = 1"
  using board_creation[of 2 1 1 "[(0, 1)]"]
  by (simp add: is_sample_def positions_def fresh_board_def upto.simps)

text \<open>
  Claim C9 as stated fails: a 1 x 1 board with one mine (mine count equal to
  width * height) is created, with its one cell a mine, and so is a board of width 0.
\<close>

theorem invalid_configuration_counterexample:
  "(1::int) \<ge> 1 * 1 \<and> \<not> isl (MinesweeperBoard 1 1 1 [(0, 0)]) \<and>
   mine_count (projr (MinesweeperBoard 1 1 1 [(0, 0)])) = 1 \<and>
   (0::int) < 1 \<and> \<not> isl (MinesweeperBoard 0 3 0 [])"
  by (simp add: MinesweeperBoard_def positions_def fresh_board_def upto.simps
      place_mines_randomly_def mine_count_def set_mine_def recount_def at_def norm_index_def)


section \<open>What probe and mark_mine do\<close>

text \<open>What probe returns for a cell of the board, in terms of the board after the first-move branch.\<close>

lemma probe_in_range:
  assumes "in_range b (i, j)"
  defines "b1 \<equiv> after_first_move b (i, j)"
  defines "b2 \<equiv> b1\<lparr>visible := (visible b1)((i, j) := True)\<rparr>"
  defines "b3 \<equiv> (if board b1 (i, j) = 0 then flood b2 [(i, j)] else b2)"
  shows "probe b i j =
     (if board b1 (i, j) = -1 then Inr (False, b1\<lparr>game_over := True\<rparr>)
      else Inr (True, if visible_count b3 = width b3 * height b3 - num_mines b3
                      then b3\<lparr>won := True\<rparr> else b3))"
proof -
  note f = after_first_move_fields[OF assms(1)]
  have at1: "at b1 (i, j) = (i, j)"
    using at_in_range[of b1 "(i, j)"] assms(1) f by (simp add: b1_def in_range_def)
  have at2: "at b2 (i, j) = (i, j)"
    using at1 by (simp add: b2_def at_def)
  have bd: "board b2 = board b1" by (simp add: b2_def)
  show ?thesis
    using in_range_in_bounds[OF assms(1)] at1 at2 bd
    by (simp add: probe_after_first_move Let_def b1_def[symmetric] b2_def[symmetric] b3_def
        del: flood.simps)
qed


lemma probe_facts:
  assumes ir: "in_range b (i, j)" and ok: "counts_ok b" and nv: "no_visible_mine b"
    and fm: "first_move b \<longrightarrow> (\<forall>p. \<not> visible b p)"
  shows "\<exists>r b'. probe b i j = Inr (r, b') \<and> no_visible_mine b' \<and> counts_ok b' \<and>
           mine_count b' = mine_count b \<and> board b' = board (after_first_move b (i, j)) \<and>
           marked b' = marked b \<and> \<not> first_move b' \<and>
           width b' = width b \<and> height b' = height b \<and> num_mines b' = num_mines b \<and>
           (\<forall>c. visible b c \<longrightarrow> visible b' c) \<and>
           (game_over b \<longrightarrow> game_over b') \<and> (won b \<longrightarrow> won b') \<and>
           (r \<longleftrightarrow> board (after_first_move b (i, j)) (i, j) \<noteq> -1) \<and>
           (r \<longrightarrow> visible b' (i, j) \<and> game_over b' = game_over b) \<and>
           (\<not> r \<longrightarrow> game_over b' \<and> visible b' = visible b \<and> won b' = won b)"
proof -
  define b1 where "b1 = after_first_move b (i, j)"
  define b2 where "b2 = b1\<lparr>visible := (visible b1)((i, j) := True)\<rparr>"
  define b3 where "b3 = (if board b1 (i, j) = 0 then flood b2 [(i, j)] else b2)"
  define b4 where "b4 = (if visible_count b3 = width b3 * height b3 - num_mines b3
                         then b3\<lparr>won := True\<rparr> else b3)"
  note f1 = after_first_move_fields[OF ir, folded b1_def]
  have nf1: "\<not> first_move b1" unfolding b1_def by (rule after_first_move_not_first[OF ir])
  have ok1: "counts_ok b1" unfolding b1_def by (rule after_first_move_counts_ok[OF ir ok])
  have nv1: "no_visible_mine b1" unfolding b1_def by (rule after_first_move_no_visible_mine[OF ir nv fm])
  have mc1: "mine_count b1 = mine_count b" unfolding b1_def by (rule after_first_move_mine_count[OF ir])
  have ir1: "in_range b1 = in_range b" using in_range_dims[of b1 b] f1 by simp
  have pr: "probe b i j =
     (if board b1 (i, j) = -1 then Inr (False, b1\<lparr>game_over := True\<rparr>) else Inr (True, b4))"
    using probe_in_range[OF ir] by (simp add: b1_def b2_def b3_def b4_def)
  show ?thesis
  proof (cases "board b1 (i, j) = -1")
    case True
    let ?b = "b1\<lparr>game_over := True\<rparr>"
    have "no_visible_mine ?b" using nv1 no_visible_mine_cong[of ?b b1] by simp
    moreover have "counts_ok ?b" using ok1 counts_ok_cong[of ?b b1] by simp
    moreover have "mine_count ?b = mine_count b" using mc1 mine_count_cong[of ?b b1] by simp
    ultimately show ?thesis
      using pr True f1 nf1
      by (intro exI[of _ False] exI[of _ ?b]) (simp add: b1_def)
  next
    case False
    have ok2: "counts_ok b2" using ok1 counts_ok_cong[of b2 b1] by (simp add: b2_def)
    have ir2: "in_range b2 = in_range b" using in_range_dims[of b2 b] f1 by (simp add: b2_def)
    have nv2: "no_visible_mine b2"
      unfolding no_visible_mine_def
    proof (intro allI impI)
      fix c assume a: "in_range b2 c \<and> visible b2 c"
      show "board b2 c \<noteq> -1"
      proof (cases "c = (i, j)")
        case True then show ?thesis using False by (simp add: b2_def)
      next
        case False
        then have "in_range b1 c \<and> visible b1 c" using a ir1 ir2 by (simp add: b2_def)
        then show ?thesis using nv1 by (simp add: no_visible_mine_def b2_def del: split_paired_All)
      qed
    qed
    have f3: "board b3 = board b1 \<and> marked b3 = marked b1 \<and> width b3 = width b1 \<and>
              height b3 = height b1 \<and> num_mines b3 = num_mines b1 \<and>
              first_move b3 = first_move b1 \<and> game_over b3 = game_over b1 \<and> won b3 = won b1"
      using flood_fields[of b2 "[(i, j)]"] by (simp add: b3_def b2_def del: flood.simps)
    have v3: "visible b2 c \<Longrightarrow> visible b3 c" for c
      using flood_visible_mono[of b2 c "[(i, j)]"] by (simp add: b3_def del: flood.simps)
    have nv3: "no_visible_mine b3"
    proof (cases "board b1 (i, j) = 0")
      case True
      have "\<forall>c \<in> set [(i, j)]. in_range b2 c \<and> board b2 c = 0"
        using True ir ir2 by (simp add: b2_def)
      then show ?thesis
        using flood_no_visible_mine[OF ok2 nv2] True by (simp add: b3_def del: flood.simps)
    next
      case False then show ?thesis using nv2 by (simp add: b3_def)
    qed
    have ok3: "counts_ok b3" using ok1 counts_ok_cong[of b3 b1] f3 by simp
    have mc3: "mine_count b3 = mine_count b" using mc1 mine_count_cong[of b3 b1] f3 by simp
    have f4: "board b4 = board b3 \<and> marked b4 = marked b3 \<and> width b4 = width b3 \<and>
              height b4 = height b3 \<and> num_mines b4 = num_mines b3 \<and> visible b4 = visible b3 \<and>
              first_move b4 = first_move b3 \<and> game_over b4 = game_over b3 \<and> (won b3 \<longrightarrow> won b4)"
      by (simp add: b4_def)
    have "no_visible_mine b4" using nv3 no_visible_mine_cong[of b4 b3] f4 by simp
    moreover have "counts_ok b4" using ok3 counts_ok_cong[of b4 b3] f4 by simp
    moreover have "mine_count b4 = mine_count b" using mc3 mine_count_cong[of b4 b3] f4 by simp
    moreover have "visible b c \<longrightarrow> visible b4 c" for c
      using v3[of c] f4 f1 by (simp add: b2_def)
    moreover have "visible b4 (i, j)" using v3[of "(i, j)"] f4 by (simp add: b2_def)
    ultimately show ?thesis
      using pr False f1 f3 f4 nf1
      by (intro exI[of _ True] exI[of _ b4]) (simp add: b1_def)
  qed
qed


lemma probe_frame:
  assumes ir: "in_range b (i, j)"
  shows "\<exists>r b'. probe b i j = Inr (r, b') \<and> board b' = board (after_first_move b (i, j)) \<and>
           marked b' = marked b \<and> \<not> first_move b' \<and>
           width b' = width b \<and> height b' = height b \<and> num_mines b' = num_mines b \<and>
           (\<forall>c. visible b c \<longrightarrow> visible b' c) \<and>
           (game_over b \<longrightarrow> game_over b') \<and> (won b \<longrightarrow> won b') \<and>
           (r \<longleftrightarrow> board (after_first_move b (i, j)) (i, j) \<noteq> -1) \<and>
           (r \<longrightarrow> visible b' (i, j) \<and> game_over b' = game_over b) \<and>
           (\<not> r \<longrightarrow> game_over b' \<and> visible b' = visible b \<and> won b' = won b)"
proof -
  define b1 where "b1 = after_first_move b (i, j)"
  define b2 where "b2 = b1\<lparr>visible := (visible b1)((i, j) := True)\<rparr>"
  define b3 where "b3 = (if board b1 (i, j) = 0 then flood b2 [(i, j)] else b2)"
  define b4 where "b4 = (if visible_count b3 = width b3 * height b3 - num_mines b3
                         then b3\<lparr>won := True\<rparr> else b3)"
  note f1 = after_first_move_fields[OF ir, folded b1_def]
  have nf1: "\<not> first_move b1" unfolding b1_def by (rule after_first_move_not_first[OF ir])
  have pr: "probe b i j =
     (if board b1 (i, j) = -1 then Inr (False, b1\<lparr>game_over := True\<rparr>) else Inr (True, b4))"
    using probe_in_range[OF ir] by (simp add: b1_def b2_def b3_def b4_def)
  show ?thesis
  proof (cases "board b1 (i, j) = -1")
    case True
    show ?thesis
      using pr True f1 nf1
      by (intro exI[of _ False] exI[of _ "b1\<lparr>game_over := True\<rparr>"]) (simp add: b1_def)
  next
    case False
    have f3: "board b3 = board b1 \<and> marked b3 = marked b1 \<and> width b3 = width b1 \<and>
              height b3 = height b1 \<and> num_mines b3 = num_mines b1 \<and>
              first_move b3 = first_move b1 \<and> game_over b3 = game_over b1 \<and> won b3 = won b1"
      using flood_fields[of b2 "[(i, j)]"] by (simp add: b3_def b2_def del: flood.simps)
    have v3: "visible b2 c \<Longrightarrow> visible b3 c" for c
      using flood_visible_mono[of b2 c "[(i, j)]"] by (simp add: b3_def del: flood.simps)
    have f4: "board b4 = board b3 \<and> marked b4 = marked b3 \<and> width b4 = width b3 \<and>
              height b4 = height b3 \<and> num_mines b4 = num_mines b3 \<and> visible b4 = visible b3 \<and>
              first_move b4 = first_move b3 \<and> game_over b4 = game_over b3 \<and> (won b3 \<longrightarrow> won b4)"
      by (simp add: b4_def)
    have "visible b c \<longrightarrow> visible b4 c" for c
      using v3[of c] f4 f1 by (simp add: b2_def)
    moreover have "visible b4 (i, j)" using v3[of "(i, j)"] f4 by (simp add: b2_def)
    ultimately show ?thesis
      using pr False f1 f3 f4 nf1
      by (intro exI[of _ True] exI[of _ b4]) (simp add: b1_def)
  qed
qed


text \<open>
  A small game for the examples: height 1, width 3, one mine, placed at (0, 1);
  then the board after probe(0, 0), and after probe(0, 1), which hits the mine.
\<close>

definition game_start :: minesweeper_board where
  "game_start = projr (MinesweeperBoard 3 1 1 [(0, 1)])"

definition game_one_probe :: minesweeper_board where
  "game_one_probe = snd (projr (probe game_start 0 0))"

definition game_lost :: minesweeper_board where
  "game_lost = snd (projr (probe game_one_probe 0 1))"

lemma game_start_created:
  "is_sample (positions (fresh_board 3 1 1)) 1 [(0, 1)] \<and>
   MinesweeperBoard 3 1 1 [(0, 1)] = Inr game_start"
proof -
  have "\<not> isl (MinesweeperBoard 3 1 1 [(0, 1)])" by code_simp
  then have "MinesweeperBoard 3 1 1 [(0, 1)] = Inr game_start"
    unfolding game_start_def by simp
  moreover have "is_sample (positions (fresh_board 3 1 1)) 1 [(0, 1)]" by code_simp
  ultimately show ?thesis by simp
qed

text \<open>A second board: height 1, width 4, one mine, placed at (0, 1).\<close>

definition row_start :: minesweeper_board where
  "row_start = projr (MinesweeperBoard 4 1 1 [(0, 1)])"

lemma row_start_created:
  "is_sample (positions (fresh_board 4 1 1)) 1 [(0, 1)] \<and>
   MinesweeperBoard 4 1 1 [(0, 1)] = Inr row_start"
proof -
  have "\<not> isl (MinesweeperBoard 4 1 1 [(0, 1)])" by code_simp
  then have "MinesweeperBoard 4 1 1 [(0, 1)] = Inr row_start"
    unfolding row_start_def by simp
  moreover have "is_sample (positions (fresh_board 4 1 1)) 1 [(0, 1)]" by code_simp
  ultimately show ?thesis by simp
qed

text \<open>
  Claim C10. For a board whose counts are right and that shows nothing before its first
  probe: if no visible cell is a mine, then probe(i, j) on a cell of the board returns,
  and no visible cell is a mine afterwards. The hidden board afterwards is the one the
  first-move branch leaves (the board itself after the first move). The call returns
  False exactly when the probed cell is a mine of it; then \<open>game_over\<close> is set and no
  cell has become visible. Otherwise it returns True, the probed cell is visible,
  \<open>game_over\<close> is as before, and whatever the flood fill has made visible is no mine.
\<close>

theorem probe_keeps_visible_cells_safe:
  assumes "no_visible_mine b" and "counts_ok b"
    and "first_move b \<longrightarrow> (\<forall>p. \<not> visible b p)" and "in_range b (i, j)"
  shows "\<exists>r b'. probe b i j = Inr (r, b') \<and> no_visible_mine b' \<and>
           board b' = board (after_first_move b (i, j)) \<and>
           (\<not> first_move b \<longrightarrow> board b' = board b) \<and>
           (r \<longleftrightarrow> board b' (i, j) \<noteq> -1) \<and>
           (\<not> r \<longrightarrow> game_over b' \<and> visible b' = visible b) \<and>
           (r \<longrightarrow> visible b' (i, j) \<and> game_over b' = game_over b) \<and>
           (\<forall>c. visible b c \<longrightarrow> visible b' c)"
proof -
  obtain r b' where p: "probe b i j = Inr (r, b')" and
    f: "no_visible_mine b'" "board b' = board (after_first_move b (i, j))"
       "r \<longleftrightarrow> board (after_first_move b (i, j)) (i, j) \<noteq> -1"
       "r \<longrightarrow> visible b' (i, j) \<and> game_over b' = game_over b"
       "\<not> r \<longrightarrow> game_over b' \<and> visible b' = visible b \<and> won b' = won b"
       "\<forall>c. visible b c \<longrightarrow> visible b' c"
    using probe_facts[OF assms(4) assms(2) assms(1) assms(3)] by blast
  have "\<not> first_move b \<longrightarrow> board b' = board b"
    using f(2) by (simp add: after_first_move_def)
  then show ?thesis
    using p f by (intro exI[of _ r] exI[of _ b']) simp
qed

theorem probe_keeps_visible_cells_safe_witness:
  "no_visible_mine game_one_probe \<and> counts_ok game_one_probe \<and> \<not> first_move game_one_probe \<and>
   in_range game_one_probe (0, 1) \<and> board game_one_probe (0, 1) = -1 \<and>
   (\<exists>b'. probe game_one_probe 0 1 = Inr (False, b') \<and> no_visible_mine b' \<and>
      board b' = board game_one_probe \<and> game_over b' \<and> visible b' = visible game_one_probe) \<and>
   no_visible_mine row_start \<and> counts_ok row_start \<and> (\<forall>p. \<not> visible row_start p) \<and>
   in_range row_start (0, 3) \<and> board row_start (0, 3) = 0 \<and>
   (\<exists>b'. probe row_start 0 3 = Inr (True, b') \<and> no_visible_mine b' \<and>
      board b' (0, 1) = -1 \<and> \<not> game_over b' \<and>
      visible b' (0, 3) \<and> visible b' (0, 2) \<and> \<not> visible b' (0, 1) \<and> \<not> visible b' (0, 0))"
proof -
  note c = game_start_created
  note inv = MinesweeperBoard_inv[OF conjunct2[OF c] conjunct1[OF c]]
  have ir: "in_range game_start (0, 0)" using inv(5,6) by (simp add: in_range_def)
  have nv: "no_visible_mine game_start" using inv(1,2) by (simp add: board_inv_def no_visible_mine_def)
  have ok: "counts_ok game_start" using inv(1) by (simp add: board_inv_def)
  have fm: "first_move game_start \<longrightarrow> (\<forall>p. \<not> visible game_start p)"
    using inv(1) by (simp add: board_inv_def)
  obtain r0 b0 where p: "probe game_start 0 0 = Inr (r0, b0)" and
    f: "no_visible_mine b0" "counts_ok b0" "\<not> first_move b0" "width b0 = width game_start"
       "height b0 = height game_start"
    using probe_facts[OF ir ok nv fm] by blast
  have b0: "game_one_probe = b0" by (simp add: game_one_probe_def p)
  have h1: "no_visible_mine game_one_probe" "counts_ok game_one_probe" "\<not> first_move game_one_probe"
    using f b0 by simp_all
  have h2: "in_range game_one_probe (0, 1)" using f(4,5) inv(5,6) b0 by (simp add: in_range_def)
  have h3: "board game_one_probe (0, 1) = -1" by code_simp
  have A: "\<exists>b'. probe game_one_probe 0 1 = Inr (False, b') \<and> no_visible_mine b' \<and>
      board b' = board game_one_probe \<and> game_over b' \<and> visible b' = visible game_one_probe"
    using probe_keeps_visible_cells_safe[OF h1(1) h1(2) _ h2] h1(3) h3 by auto
  note c' = row_start_created
  note inv' = MinesweeperBoard_inv[OF conjunct2[OF c'] conjunct1[OF c']]
  have nvis: "\<forall>p. \<not> visible row_start p" using inv'(1,2) by (simp add: board_inv_def)
  have g1: "no_visible_mine row_start" using nvis by (simp add: no_visible_mine_def)
  have g2: "counts_ok row_start" using inv'(1) by (simp add: board_inv_def)
  have g3: "in_range row_start (0, 3)" using inv'(5,6) by (simp add: in_range_def)
  have g4: "board row_start (0, 3) = 0" by code_simp
  have e: "fst (projr (probe row_start 0 3))"
    "board (snd (projr (probe row_start 0 3))) (0, 1) = -1"
    "\<not> game_over (snd (projr (probe row_start 0 3)))"
    "visible (snd (projr (probe row_start 0 3))) (0, 3)"
    "visible (snd (projr (probe row_start 0 3))) (0, 2)"
    "\<not> visible (snd (projr (probe row_start 0 3))) (0, 1)"
    "\<not> visible (snd (projr (probe row_start 0 3))) (0, 0)"
    by code_simp+
  obtain r b' where q: "probe row_start 0 3 = Inr (r, b')" and nb: "no_visible_mine b'"
    using probe_keeps_visible_cells_safe[OF g1 g2 _ g3] nvis by blast
  have B: "\<exists>b'. probe row_start 0 3 = Inr (True, b') \<and> no_visible_mine b' \<and>
      board b' (0, 1) = -1 \<and> \<not> game_over b' \<and>
      visible b' (0, 3) \<and> visible b' (0, 2) \<and> \<not> visible b' (0, 1) \<and> \<not> visible b' (0, 0)"
    using e nb unfolding q by (intro exI[of _ b']) simp
  show ?thesis
    using A B h1 h2 h3 g1 g2 g3 g4 nvis by simp
qed



text \<open>
  Claim C7, as the code has it. The board has no guard for a terminal state: on a board
  that is lost or won (so the first probe is past), \<open>mark_mine\<close> still sets the marked
  flag of the cell, and \<open>probe\<close> still runs: probing a mine sets \<open>game_over\<close>,
  probing another cell makes it visible (and can flood and set \<open>won\<close>). What is kept:
  no failure for a cell of the board, the hidden board, the marks under \<open>probe\<close>,
  the visible cells, and the flags \<open>game_over\<close> and \<open>won\<close> once set. It is the
  driving loop that stops calling the board.
\<close>

theorem terminal_board_is_not_frozen:
  assumes "game_over b \<or> won b" and "\<not> first_move b" and "in_range b (i, j)"
  shows "mark_mine b i j = Inr (b\<lparr>marked := (marked b)((i, j) := True)\<rparr>) \<and>
         (\<exists>r b'. probe b i j = Inr (r, b') \<and> board b' = board b \<and> marked b' = marked b \<and>
            (\<forall>c. visible b c \<longrightarrow> visible b' c) \<and>
            (game_over b \<longrightarrow> game_over b') \<and> (won b \<longrightarrow> won b') \<and>
            (r \<longleftrightarrow> board b (i, j) \<noteq> -1) \<and>
            (r \<longrightarrow> visible b' (i, j)) \<and>
            (\<not> r \<longrightarrow> game_over b' \<and> visible b' = visible b))"
proof -
  have m: "mark_mine b i j = Inr (b\<lparr>marked := (marked b)((i, j) := True)\<rparr>)"
    using in_range_in_bounds[OF assms(3)] at_in_range[OF assms(3)] by (simp add: mark_mine_def)
  have a: "after_first_move b (i, j) = b" using assms(2) by (simp add: after_first_move_def)
  show ?thesis using m probe_frame[OF assms(3)] unfolding a by blast
qed

theorem terminal_board_is_not_frozen_witness:
  "game_over game_lost \<and> \<not> first_move game_lost \<and> in_range game_lost (0, 2) \<and>
   \<not> marked game_lost (0, 2) \<and>
   mark_mine game_lost 0 2 = Inr (game_lost\<lparr>marked := (marked game_lost)((0, 2) := True)\<rparr>) \<and>
   (\<exists>r b'. probe game_lost 0 2 = Inr (r, b') \<and> board b' = board game_lost \<and>
      marked b' = marked game_lost \<and> game_over b' \<and> r \<and> visible b' (0, 2))"
proof -
  have h: "game_over game_lost" "\<not> first_move game_lost" "in_range game_lost (0, 2)"
    "\<not> marked game_lost (0, 2)" "board game_lost (0, 2) \<noteq> -1"
    by code_simp+
  show ?thesis
    using terminal_board_is_not_frozen[OF disjI1[OF h(1)] h(2) h(3)] h by auto
qed

text \<open>
  Claim C7 as stated fails. In the game above the board is lost after probe(0, 1), with
  (0, 2) hidden and unmarked. \<open>mark_mine(0, 2)\<close> then marks the cell, and
  \<open>probe(0, 2)\<close> makes it visible and, the two safe cells being visible now, sets
  \<open>won\<close> on the lost board.
\<close>

theorem terminal_noop_counterexample:
  "game_over game_lost \<and> \<not> won game_lost \<and>
   \<not> visible game_lost (0, 2) \<and> \<not> marked game_lost (0, 2) \<and>
   \<not> isl (mark_mine game_lost 0 2) \<and> marked (projr (mark_mine game_lost 0 2)) (0, 2) \<and>
   \<not> isl (probe game_lost 0 2) \<and> visible (snd (projr (probe game_lost 0 2))) (0, 2) \<and>
   won (snd (projr (probe game_lost 0 2)))"
  by code_simp


section \<open>The solver of \<^verbatim>\<open>mines.py\<close>\<close>

text \<open>
  A Python set of cells is a list without duplicates; the order of the list stands for
  the order in which Python iterates over the set, which the language leaves open. No
  theorem below depends on that order. \<open>Constraint\<close> is the constructor of the class,
  which turns its argument into a set.
\<close>

record constraint =
  variables :: "cell list"
  c_value :: int

definition Constraint :: "cell list \<Rightarrow> int \<Rightarrow> constraint" where
  "Constraint vs v = \<lparr>variables = remdups vs, c_value = v\<rparr>"

record csp_strategy =
  sboard :: minesweeper_board
  constraints :: "constraint list"

definition CSPStrategy :: "minesweeper_board \<Rightarrow> csp_strategy" where
  "CSPStrategy b = \<lparr>sboard = b, constraints = []\<rparr>"

datatype action = Probe | Mark

text \<open>The justification strings of the moves, one constructor for each message.\<close>

datatype reason =
  AllMustBeMines | AllMustBeClear | CrapsShoot | MineInNoSolution | MineInAllSolutions | Guess

type_synonym move = "action \<times> cell \<times> reason"

subsection \<open>simplify\_constraints\<close>

definition unknown :: "minesweeper_board \<Rightarrow> cell \<Rightarrow> bool" where
  "unknown b v \<longleftrightarrow> \<not> visible b (at b v) \<and> \<not> marked b (at b v)"

definition known_mine :: "minesweeper_board \<Rightarrow> cell \<Rightarrow> bool" where
  "known_mine b v \<longleftrightarrow> \<not> visible b (at b v) \<and> marked b (at b v)"

definition set_visible :: "cell \<Rightarrow> minesweeper_board \<Rightarrow> minesweeper_board" where
  "set_visible v b = b\<lparr>visible := (visible b)(at b v := True)\<rparr>"

definition set_marked :: "cell \<Rightarrow> minesweeper_board \<Rightarrow> minesweeper_board" where
  "set_marked v b = b\<lparr>marked := (marked b)(at b v := True)\<rparr>"

text \<open>
  The loop over the constraints, with the board and the list \<open>new_constraints\<close> as
  state. Reading the arrays at a variable outside them raises IndexError, before the
  constraint at hand has changed anything.
\<close>

fun simplify_loop ::
  "constraint list \<Rightarrow> minesweeper_board \<Rightarrow> constraint list \<Rightarrow>
   error + minesweeper_board \<times> constraint list" where
  "simplify_loop [] b new_constraints = Inr (b, new_constraints)"
| "simplify_loop (c # cs) b new_constraints =
     (if \<not> list_all (in_bounds b) (variables c) then Inl IndexError
      else
        let new_vars = filter (unknown b) (variables c);
            new_value = c_value c - int (length (filter (known_mine b) (variables c)))
        in if length new_vars = 0 then simplify_loop cs b new_constraints
           else if new_value = 0 then simplify_loop cs (fold set_visible new_vars b) new_constraints
           else if new_value = int (length new_vars)
             then simplify_loop cs (fold set_marked new_vars b) new_constraints
           else simplify_loop cs b (new_constraints @ [Constraint new_vars new_value]))"

definition simplify_constraints :: "csp_strategy \<Rightarrow> error + csp_strategy" where
  "simplify_constraints s =
     (case simplify_loop (constraints s) (sboard s) [] of
        Inl e \<Rightarrow> Inl e
      | Inr (b, cs) \<Rightarrow> Inr (s\<lparr>sboard := b, constraints := cs\<rparr>))"

subsection \<open>simplify\_constraints\_by\_subset\<close>

text \<open>
  The inner loop, for the constraint \<open>c1\<close> at index \<open>i\<close>: \<open>done\<close> holds the
  entries before index \<open>j\<close>, as the loop has left them, and the list after it the
  entries from \<open>j\<close> on. A replacement goes on with the next \<open>j\<close>; a \<open>pop\<close>
  ends the loop.
\<close>

fun subset_inner ::
  "nat \<Rightarrow> constraint \<Rightarrow> nat \<Rightarrow> constraint list \<Rightarrow> constraint list \<Rightarrow> bool \<Rightarrow>
   constraint list \<times> bool" where
  "subset_inner i c1 j done [] changed = (done, changed)"
| "subset_inner i c1 j done (c2 # rest) changed =
     (if i \<noteq> j \<and> set (variables c1) \<subseteq> set (variables c2)
      then
        let new_vars = filter (\<lambda>v. v \<notin> set (variables c1)) (variables c2);
            new_value = c_value c2 - c_value c1
        in if new_vars \<noteq> []
           then subset_inner i c1 (Suc j) (done @ [Constraint new_vars new_value]) rest True
           else (done @ rest, True)
      else subset_inner i c1 (Suc j) (done @ [c2]) rest changed)"

text \<open>
  The outer loop from index \<open>i\<close> on. It goes to the next index only when the inner
  loop has changed nothing, and then the list is the one it started with.
\<close>

function subset_outer :: "nat \<Rightarrow> constraint list \<Rightarrow> constraint list \<times> bool" where
  "subset_outer i cs =
     (if i < length cs
      then (case subset_inner i (cs ! i) 0 [] cs False of
              (cs', changed) \<Rightarrow> if changed then (cs', True) else subset_outer (Suc i) cs)
      else (cs, False))"
  by pat_completeness auto
termination
  by (relation "measure (\<lambda>(i, cs). length cs - i)") auto

declare subset_outer.simps [simp del]

text \<open>The \<^verbatim>\<open>while changed\<close> loop; \<open>None\<close> when it does not end.\<close>

partial_function (option) subset_while :: "constraint list \<Rightarrow> constraint list option" where
  "subset_while cs =
     (case subset_outer 0 cs of
        (cs', changed) \<Rightarrow> if changed then subset_while cs' else Some cs')"

declare subset_while.simps [code]

definition simplify_constraints_by_subset :: "csp_strategy \<Rightarrow> csp_strategy option" where
  "simplify_constraints_by_subset s =
     map_option (\<lambda>cs. s\<lparr>constraints := cs\<rparr>) (subset_while (constraints s))"

subsection \<open>find\_certain\_move\<close>

fun first_unmarked :: "minesweeper_board \<Rightarrow> cell list \<Rightarrow> error + cell option" where
  "first_unmarked b [] = Inr None"
| "first_unmarked b (v # vs) =
     (if \<not> in_bounds b v then Inl IndexError
      else if \<not> marked b (at b v) then Inr (Some v)
      else first_unmarked b vs)"

fun first_unknown :: "minesweeper_board \<Rightarrow> cell list \<Rightarrow> error + cell option" where
  "first_unknown b [] = Inr None"
| "first_unknown b (v # vs) =
     (if \<not> in_bounds b v then Inl IndexError
      else if \<not> visible b (at b v) \<and> \<not> marked b (at b v) then Inr (Some v)
      else first_unknown b vs)"

fun find_certain_move_loop :: "minesweeper_board \<Rightarrow> constraint list \<Rightarrow> error + move option" where
  "find_certain_move_loop b [] = Inr None"
| "find_certain_move_loop b (c # cs) =
     (case (if c_value c = int (length (variables c)) then first_unmarked b (variables c)
            else Inr None) of
        Inl e \<Rightarrow> Inl e
      | Inr (Some v) \<Rightarrow> Inr (Some (Mark, v, AllMustBeMines))
      | Inr None \<Rightarrow>
          (case (if c_value c = 0 then first_unknown b (variables c) else Inr None) of
             Inl e \<Rightarrow> Inl e
           | Inr (Some v) \<Rightarrow> Inr (Some (Probe, v, AllMustBeClear))
           | Inr None \<Rightarrow> find_certain_move_loop b cs))"

definition find_certain_move :: "csp_strategy \<Rightarrow> error + move option" where
  "find_certain_move s = find_certain_move_loop (sboard s) (constraints s)"

subsection \<open>find\_coupled\_constraints\<close>

definition shares_variable :: "constraint \<Rightarrow> constraint \<Rightarrow> bool" where
  "shares_variable c1 c2 \<longleftrightarrow> list_ex (\<lambda>v. v \<in> set (variables c2)) (variables c1)"

text \<open>
  \<^verbatim>\<open>constraint_graph[i]\<close>, a set of indices; its members are taken in increasing
  order.
\<close>

definition constraint_graph :: "constraint list \<Rightarrow> nat \<Rightarrow> nat list" where
  "constraint_graph cs i =
     filter (\<lambda>j. i \<noteq> j \<and> shares_variable (cs ! i) (cs ! j)) [0 ..< length cs]"

lemma constraint_graph_bound: "set (constraint_graph cs i) \<subseteq> {..< length cs}"
  by (auto simp: constraint_graph_def)

lemma constraint_graph_distinct: "distinct (constraint_graph cs i)"
  by (simp add: constraint_graph_def)

lemma card_unvisited:
  assumes "distinct new" "set new \<subseteq> {..< n::nat}" "set new \<inter> set visited = {}"
  shows "card ({..< n} - set (visited @ new)) + length new = card ({..< n} - set visited)"
proof -
  have fin: "finite ({..< n} - set visited)" by simp
  have sub: "set new \<subseteq> {..< n} - set visited" using assms(2,3) by auto
  have "{..< n} - set (visited @ new) = ({..< n} - set visited) - set new" by auto
  then have "card ({..< n} - set (visited @ new)) = card ({..< n} - set visited) - card (set new)"
    using card_Diff_subset[of "set new" "{..< n} - set visited"] sub by simp
  moreover have "card (set new) \<le> card ({..< n} - set visited)"
    using card_mono[OF fin sub] .
  moreover have "card (set new) = length new" using assms(1) by (simp add: distinct_card)
  ultimately show ?thesis by simp
qed

text \<open>The breadth-first search of one component: the queue, the visited set, the component.\<close>

function bfs ::
  "constraint list \<Rightarrow> nat list \<Rightarrow> nat list \<Rightarrow> nat list \<Rightarrow> nat list \<times> nat list" where
  "bfs cs [] visited component = (component, visited)"
| "bfs cs (node # queue) visited component =
     (let new = filter (\<lambda>neighbor. neighbor \<notin> set visited) (constraint_graph cs node)
      in bfs cs (queue @ new) (visited @ new) (component @ [node]))"
  by pat_completeness auto
termination
proof (relation "measure (\<lambda>(cs, queue, visited, component).
    card ({..< length cs} - set visited) + length queue)")
  show "wf (measure (\<lambda>(cs, queue, visited, component).
    card ({..< length cs} - set visited) + length queue))" by simp
next
  fix cs :: "constraint list" and node queue visited and component :: "nat list" and new
  assume new: "new = filter (\<lambda>neighbor. neighbor \<notin> set visited) (constraint_graph cs node)"
  have "card ({..< length cs} - set (visited @ new)) + length new
        = card ({..< length cs} - set visited)"
    using constraint_graph_bound[of cs node] constraint_graph_distinct[of cs node]
    by (intro card_unvisited) (auto simp: new)
  then show "((cs, queue @ new, visited @ new, component @ [node]), cs, node # queue, visited, component)
    \<in> measure (\<lambda>(cs, queue, visited, component).
        card ({..< length cs} - set visited) + length queue)"
    by simp
qed

declare bfs.simps [simp del]

fun components_loop ::
  "constraint list \<Rightarrow> nat list \<Rightarrow> nat list \<Rightarrow> constraint list list \<Rightarrow> constraint list list" where
  "components_loop cs [] visited coupled_sets = coupled_sets"
| "components_loop cs (i # is) visited coupled_sets =
     (if i \<notin> set visited
      then (case bfs cs [i] (visited @ [i]) [] of
              (component, visited') \<Rightarrow>
                components_loop cs is visited' (coupled_sets @ [map (\<lambda>idx. cs ! idx) component]))
      else components_loop cs is visited coupled_sets)"

definition find_coupled_constraints :: "csp_strategy \<Rightarrow> constraint list list" where
  "find_coupled_constraints s =
     components_loop (constraints s) [0 ..< length (constraints s)] [] []"

subsection \<open>check\_craps\_shoot\<close>

text \<open>\<^verbatim>\<open>all_vars\<close>: the union of the variable sets, as a set.\<close>

definition all_variables :: "constraint list \<Rightarrow> cell list" where
  "all_variables constraints_subset = remdups (concat (map variables constraints_subset))"

text \<open>
  \<open>rnd\<close> is the number the random generator draws for \<^verbatim>\<open>random.choice\<close>, which
  raises IndexError on an empty list.
\<close>

definition check_craps_shoot ::
  "minesweeper_board \<Rightarrow> constraint list \<Rightarrow> nat \<Rightarrow> error + move option" where
  "check_craps_shoot b constraints_subset rnd =
     (let all_vars = all_variables constraints_subset
      in if list_ex (\<lambda>v. list_ex (\<lambda>n. \<not> visible b n \<and> \<not> marked b n \<and> n \<notin> set all_vars)
                              (get_neighbors b v)) all_vars
         then Inr None
         else if all_vars = [] then Inl IndexError
         else Inr (Some (Probe, all_vars ! (rnd mod length all_vars), CrapsShoot)))"

subsection \<open>solve\_constraints\<close>

text \<open>
  The state of the enumeration: the dictionary \<open>assigned_vars\<close>, shared by all the
  calls, the counter \<open>total_solutions\<close> and the dictionary \<open>var_is_mine_count\<close>
  (every variable has an entry, 0 at first).
\<close>

type_synonym bt_state = "(cell \<times> int) list \<times> int \<times> (cell \<Rightarrow> int)"

definition get_assigned :: "(cell \<times> int) list \<Rightarrow> cell \<Rightarrow> int" where
  "get_assigned assigned_vars var = (case map_of assigned_vars var of None \<Rightarrow> 0 | Some x \<Rightarrow> x)"

definition satisfies :: "(cell \<times> int) list \<Rightarrow> constraint \<Rightarrow> bool" where
  "satisfies assigned_vars c \<longleftrightarrow>
     sum_list (map (get_assigned assigned_vars) (variables c)) = c_value c"

fun count_mine :: "cell \<times> int \<Rightarrow> (cell \<Rightarrow> int) \<Rightarrow> (cell \<Rightarrow> int)" where
  "count_mine (var, is_mine) cnt = (if is_mine \<noteq> 0 then cnt(var := cnt var + 1) else cnt)"

function backtrack ::
  "cell list \<Rightarrow> constraint list \<Rightarrow> nat \<Rightarrow> bt_state \<Rightarrow> bt_state" where
  "backtrack all_vars cs var_idx (assigned_vars, total_solutions, var_is_mine_count) =
     (if length all_vars \<le> var_idx
      then if list_all (satisfies assigned_vars) cs
           then (assigned_vars, total_solutions + 1, fold count_mine assigned_vars var_is_mine_count)
           else (assigned_vars, total_solutions, var_is_mine_count)
      else
        let var = all_vars ! var_idx;
            st1 = backtrack all_vars cs (Suc var_idx)
                    (AList.update var 0 assigned_vars, total_solutions, var_is_mine_count);
            st2 = backtrack all_vars cs (Suc var_idx)
                    (AList.update var 1 (fst st1), snd st1)
        in (AList.delete var (fst st2), snd st2))"
  by pat_completeness auto
termination
  by (relation "measure (\<lambda>(all_vars, cs, var_idx, st). length all_vars - var_idx)") auto

declare backtrack.simps [simp del]

fun first_certain :: "cell list \<Rightarrow> int \<Rightarrow> (cell \<Rightarrow> int) \<Rightarrow> move option" where
  "first_certain [] total_solutions cnt = None"
| "first_certain (var # vars) total_solutions cnt =
     (if cnt var = 0 then Some (Probe, var, MineInNoSolution)
      else if cnt var = total_solutions then Some (Mark, var, MineInAllSolutions)
      else first_certain vars total_solutions cnt)"

definition solve_constraints :: "constraint list \<Rightarrow> move option" where
  "solve_constraints constraints_subset =
     (let all_vars = all_variables constraints_subset;
          st = backtrack all_vars constraints_subset 0 ([], 0, (\<lambda>_. 0));
          total_solutions = fst (snd st);
          var_is_mine_count = snd (snd st)
      in if total_solutions = 0 then None
         else first_certain all_vars total_solutions var_is_mine_count)"

subsection \<open>next\_move\<close>

text \<open>
  The loop of \<^verbatim>\<open>next_move\<close> over the coupled subsets: for each one the craps-shoot
  test first, then the enumeration.
\<close>

fun coupled_moves ::
  "minesweeper_board \<Rightarrow> constraint list list \<Rightarrow> nat \<Rightarrow> error + move option" where
  "coupled_moves b [] rnd = Inr None"
| "coupled_moves b (constraints_subset # rest) rnd =
     (case check_craps_shoot b constraints_subset rnd of
        Inl e \<Rightarrow> Inl e
      | Inr (Some craps_shoot) \<Rightarrow> Inr (Some craps_shoot)
      | Inr None \<Rightarrow>
          (case solve_constraints constraints_subset of
             Some certain_move \<Rightarrow> Inr (Some certain_move)
           | None \<Rightarrow> coupled_moves b rest rnd))"

text \<open>
  \<^verbatim>\<open>next_move\<close> returns the move and leaves the solver changed. Steps 6 and 7
  (\<^verbatim>\<open>make_best_guess\<close>, which computes with floating-point numbers, and
  \<^verbatim>\<open>choose_unconstrained_square\<close>, which shuffles) are the parameter \<open>guess\<close>.
  The result is \<open>None\<close> when the subset simplification does not end.
\<close>

definition next_move ::
  "csp_strategy \<Rightarrow> nat \<Rightarrow> (csp_strategy \<Rightarrow> move option) \<Rightarrow>
   (error + move option \<times> csp_strategy) option" where
  "next_move s rnd guess =
     (case simplify_constraints s of
        Inl e \<Rightarrow> Some (Inl e)
      | Inr s1 \<Rightarrow>
          (case simplify_constraints_by_subset s1 of
             None \<Rightarrow> None
           | Some s2 \<Rightarrow>
               (case find_certain_move s2 of
                  Inl e \<Rightarrow> Some (Inl e)
                | Inr (Some certain_move) \<Rightarrow> Some (Inr (Some certain_move, s2))
                | Inr None \<Rightarrow>
                    (case coupled_moves (sboard s2) (find_coupled_constraints s2) rnd of
                       Inl e \<Rightarrow> Some (Inl e)
                     | Inr (Some m) \<Rightarrow> Some (Inr (Some m, s2))
                     | Inr None \<Rightarrow> Some (Inr (guess s2, s2))))))"

subsection \<open>update\_constraints\<close>

definition add_constraint_from_move :: "csp_strategy \<Rightarrow> int \<Rightarrow> int \<Rightarrow> error + csp_strategy" where
  "add_constraint_from_move s i j =
     (let b = sboard s
      in if \<not> in_bounds b (i, j) then Inl IndexError
         else if \<not> visible b (at b (i, j)) then Inr s
         else
           let val = board b (at b (i, j));
               unknown_neighbors = filter (\<lambda>n. \<not> visible b n) (get_neighbors b (i, j))
           in if unknown_neighbors \<noteq> [] \<and> val > 0
              then Inr (s\<lparr>constraints := constraints s @ [Constraint unknown_neighbors val]\<rparr>)
              else Inr s)"

fun update_loop :: "cell list \<Rightarrow> csp_strategy \<Rightarrow> error + csp_strategy" where
  "update_loop [] s = Inr s"
| "update_loop ((i, j) # ps) s =
     (if visible (sboard s) (i, j)
      then (case add_constraint_from_move s i j of
              Inl e \<Rightarrow> Inl e
            | Inr s' \<Rightarrow> update_loop ps s')
      else update_loop ps s)"

definition update_constraints :: "csp_strategy \<Rightarrow> error + csp_strategy" where
  "update_constraints s = update_loop (positions (sboard s)) s"


section \<open>Properties of the solver\<close>

text \<open>
  A game on the board \<open>row_start\<close> of height 1 and width 4 with its one mine at
  (0, 1): probe(0, 2), \<open>update_constraints\<close>, probe(0, 0), \<open>update_constraints\<close>.
\<close>

definition row_s1 :: csp_strategy where
  "row_s1 = projr (update_constraints (CSPStrategy (snd (projr (probe row_start 0 2)))))"

definition row_s2 :: csp_strategy where
  "row_s2 = projr (update_constraints (row_s1\<lparr>sboard := snd (projr (probe (sboard row_s1) 0 0))\<rparr>))"

definition row_s3 :: csp_strategy where
  "row_s3 = projr (simplify_constraints row_s2)"

text \<open>
  Claim C8. The claim fails on the code for the reveal that \<open>simplify_constraints\<close>
  does itself: it writes the \<open>visible\<close> array and never looks at the number of
  visible cells. In the game above the board has 2 of its 3 safe cells visible before
  the call; the call marks (0, 1), makes (0, 3) visible, and leaves a board whose safe
  cells are all visible with \<open>won\<close> still False. \<open>next_move\<close> on that state then
  returns a craps-shoot probe, here of the marked mine (0, 1).
\<close>

theorem auto_reveal_skips_win_check:
  "MinesweeperBoard 4 1 1 [(0, 1)] = Inr row_start \<and>
   is_sample (positions (fresh_board 4 1 1)) 1 [(0, 1)] \<and>
   fst (projr (probe row_start 0 2)) \<and>
   \<not> isl (update_constraints (CSPStrategy (snd (projr (probe row_start 0 2))))) \<and>
   fst (projr (probe (sboard row_s1) 0 0)) \<and>
   \<not> isl (update_constraints (row_s1\<lparr>sboard := snd (projr (probe (sboard row_s1) 0 0))\<rparr>)) \<and>
   visible_count (sboard row_s2) = 2 \<and> \<not> won (sboard row_s2) \<and>
   simplify_constraints row_s2 = Inr row_s3 \<and>
   visible (sboard row_s3) (0, 3) \<and>
   visible_count (sboard row_s3) =
     width (sboard row_s3) * height (sboard row_s3) - num_mines (sboard row_s3) \<and>
   \<not> won (sboard row_s3) \<and> \<not> game_over (sboard row_s3) \<and>
   map_option (map_sum id fst) (next_move row_s2 0 (\<lambda>_. None)) =
     Some (Inr (Some (Probe, (0, 1), CrapsShoot))) \<and>
   board (sboard row_s3) (0, 1) = -1"
proof -
  have a: "\<not> isl (MinesweeperBoard 4 1 1 [(0, 1)])" by code_simp
  have b: "\<not> isl (simplify_constraints row_s2)" by code_simp
  have "MinesweeperBoard 4 1 1 [(0, 1)] = Inr row_start"
    using a unfolding row_start_def by simp
  moreover have "simplify_constraints row_s2 = Inr row_s3"
    using b unfolding row_s3_def by simp
  moreover have "is_sample (positions (fresh_board 4 1 1)) 1 [(0, 1)]" by code_simp
  moreover have "fst (projr (probe row_start 0 2))" by code_simp
  moreover have "\<not> isl (update_constraints (CSPStrategy (snd (projr (probe row_start 0 2)))))"
    by code_simp
  moreover have "fst (projr (probe (sboard row_s1) 0 0))" by code_simp
  moreover have
    "\<not> isl (update_constraints (row_s1\<lparr>sboard := snd (projr (probe (sboard row_s1) 0 0))\<rparr>))"
    by code_simp
  moreover have "visible_count (sboard row_s2) = 2" "\<not> won (sboard row_s2)" by code_simp+
  moreover have "visible (sboard row_s3) (0, 3)" by code_simp
  moreover have "visible_count (sboard row_s3) =
     width (sboard row_s3) * height (sboard row_s3) - num_mines (sboard row_s3)" by code_simp
  moreover have "\<not> won (sboard row_s3)" "\<not> game_over (sboard row_s3)" by code_simp+
  moreover have "map_option (map_sum id fst) (next_move row_s2 0 (\<lambda>_. None)) =
     Some (Inr (Some (Probe, (0, 1), CrapsShoot)))" by code_simp
  moreover have "board (sboard row_s3) (0, 1) = -1" by code_simp
  ultimately show ?thesis by simp
qed

text \<open>
  A game on a board of height 2 and width 4 with mines at (0, 0), (1, 0) and (0, 1):
  probe(1, 1), \<open>update_constraints\<close>, probe(1, 2), \<open>update_constraints\<close>.
\<close>

definition quad_start :: minesweeper_board where
  "quad_start = projr (MinesweeperBoard 4 2 3 [(0, 0), (1, 0), (0, 1)])"

definition quad_s1 :: csp_strategy where
  "quad_s1 = projr (update_constraints (CSPStrategy (snd (projr (probe quad_start 1 1)))))"

definition quad_s2 :: csp_strategy where
  "quad_s2 = projr (update_constraints (quad_s1\<lparr>sboard := snd (projr (probe (sboard quad_s1) 1 2))\<rparr>))"

definition quad_component :: "constraint list" where
  "quad_component =
     [\<lparr>variables = [(0, 0), (0, 1), (0, 2), (1, 0)], c_value = 3\<rparr>,
      \<lparr>variables = [(0, 1), (0, 2), (0, 3), (1, 3)], c_value = 1\<rparr>]"

text \<open>
  Claim C4. The claim fails on the code: \<open>next_move\<close> runs the craps-shoot test of a
  coupled subset before its enumeration. In the game above the solver holds the
  constraints \<open>quad_component\<close> after its simplifications; every hidden neighbour of
  their variables is one of the variables, so \<open>next_move\<close> returns a random probe
  (of the mine (0, 0), for the draw 0), while the enumeration of the same subset finds
  (0, 0) a mine in all solutions.
\<close>

theorem craps_shoot_preempts_certain_move:
  "MinesweeperBoard 4 2 3 [(0, 0), (1, 0), (0, 1)] = Inr quad_start \<and>
   is_sample (positions (fresh_board 4 2 3)) 3 [(0, 0), (1, 0), (0, 1)] \<and>
   fst (projr (probe quad_start 1 1)) \<and>
   \<not> isl (update_constraints (CSPStrategy (snd (projr (probe quad_start 1 1))))) \<and>
   fst (projr (probe (sboard quad_s1) 1 2)) \<and>
   \<not> isl (update_constraints (quad_s1\<lparr>sboard := snd (projr (probe (sboard quad_s1) 1 2))\<rparr>)) \<and>
   map_option (map_sum id (\<lambda>(m, s). (m, find_coupled_constraints s)))
       (next_move quad_s2 0 (\<lambda>_. None)) =
     Some (Inr (Some (Probe, (0, 0), CrapsShoot), [quad_component])) \<and>
   solve_constraints quad_component = Some (Mark, (0, 0), MineInAllSolutions) \<and>
   board (sboard quad_s2) (0, 0) = -1"
proof -
  have a: "\<not> isl (MinesweeperBoard 4 2 3 [(0, 0), (1, 0), (0, 1)])" by code_simp
  have "MinesweeperBoard 4 2 3 [(0, 0), (1, 0), (0, 1)] = Inr quad_start"
    using a unfolding quad_start_def by simp
  moreover have "is_sample (positions (fresh_board 4 2 3)) 3 [(0, 0), (1, 0), (0, 1)]"
    by code_simp
  moreover have "fst (projr (probe quad_start 1 1))" by code_simp
  moreover have "\<not> isl (update_constraints (CSPStrategy (snd (projr (probe quad_start 1 1)))))"
    by code_simp
  moreover have "fst (projr (probe (sboard quad_s1) 1 2))" by code_simp
  moreover have
    "\<not> isl (update_constraints (quad_s1\<lparr>sboard := snd (projr (probe (sboard quad_s1) 1 2))\<rparr>))"
    by code_simp
  moreover have "map_option (map_sum id (\<lambda>(m, s). (m, find_coupled_constraints s)))
       (next_move quad_s2 0 (\<lambda>_. None)) =
     Some (Inr (Some (Probe, (0, 0), CrapsShoot), [quad_component]))" by code_simp
  moreover have "solve_constraints quad_component = Some (Mark, (0, 0), MineInAllSolutions)"
    by code_simp
  moreover have "board (sboard quad_s2) (0, 0) = -1" by code_simp
  ultimately show ?thesis by simp
qed


subsection \<open>The subset simplification\<close>

lemma subset_while_single: "subset_while [A] = Some [A]"
  by (simp add: subset_while.simps[of "[A]"] subset_outer.simps[of 0 "[A]"]
      subset_outer.simps[of "Suc 0" "[A]"])



definition weight :: "constraint list \<Rightarrow> nat" where
  "weight cs = sum_list (map (\<lambda>c. Suc (length (variables c))) cs)"

lemma length_remainder:
  assumes "vs \<noteq> []" "set vs \<subseteq> set ws"
  shows "length (remdups (filter (\<lambda>v. v \<notin> set vs) ws)) < length ws"
proof -
  obtain v where v: "v \<in> set vs" using assms(1) by (cases vs) auto
  then have "v \<in> set ws" using assms(2) by auto
  then have "length (filter (\<lambda>v. v \<notin> set vs) ws) < length ws"
    using v by (intro length_filter_less[of v]) auto
  then show ?thesis
    by (rule le_less_trans[OF length_remdups_leq])
qed

lemma subset_inner_Cons:
  "subset_inner i c1 j done (c2 # rest) changed =
     (if i \<noteq> j \<and> set (variables c1) \<subseteq> set (variables c2)
      then if filter (\<lambda>v. v \<notin> set (variables c1)) (variables c2) \<noteq> []
           then subset_inner i c1 (Suc j)
                  (done @ [Constraint (filter (\<lambda>v. v \<notin> set (variables c1)) (variables c2))
                             (c_value c2 - c_value c1)]) rest True
           else (done @ rest, True)
      else subset_inner i c1 (Suc j) (done @ [c2]) rest changed)"
  by (simp add: Let_def)

lemma subset_inner_weight:
  assumes "subset_inner i c1 j done rest changed = (cs', ch)" and "variables c1 \<noteq> []"
  shows "(changed \<longrightarrow> ch) \<and> (\<not> ch \<longrightarrow> cs' = done @ rest) \<and>
         weight cs' \<le> weight (done @ rest) \<and>
         (ch \<and> \<not> changed \<longrightarrow> weight cs' < weight (done @ rest))"
  using assms
proof (induction rest arbitrary: j "done" changed)
  case Nil
  then have "cs' = done" "ch = changed" by simp_all
  then show ?case by simp
next
  case (Cons c2 rest)
  let ?nv = "filter (\<lambda>v. v \<notin> set (variables c1)) (variables c2)"
  let ?c = "Constraint ?nv (c_value c2 - c_value c1)"
  show ?case
  proof (cases "i \<noteq> j \<and> set (variables c1) \<subseteq> set (variables c2)")
    case False
    have "subset_inner i c1 (Suc j) (done @ [c2]) rest changed = (cs', ch)"
      using Cons.prems(1) unfolding subset_inner_Cons if_not_P[OF False] .
    from Cons.IH[OF this Cons.prems(2)] show ?thesis by simp
  next
    case True
    have lt: "length (variables ?c) < length (variables c2)"
      using length_remainder[OF Cons.prems(2), of "variables c2"] True
      by (simp add: Constraint_def)
    show ?thesis
    proof (cases "?nv = []")
      case e: True
      have "(done @ rest, True) = (cs', ch)"
        using Cons.prems(1) unfolding subset_inner_Cons if_P[OF True] using e by simp
      then have "cs' = done @ rest" "ch" by simp_all
      then show ?thesis by (simp add: weight_def)
    next
      case ne: False
      have r: "subset_inner i c1 (Suc j) (done @ [?c]) rest True = (cs', ch)"
        using Cons.prems(1) unfolding subset_inner_Cons if_P[OF True] if_P[OF ne] .
      have w: "weight ((done @ [?c]) @ rest) < weight (done @ c2 # rest)"
        using lt by (simp add: weight_def)
      from Cons.IH[OF r Cons.prems(2)] w show ?thesis by simp
    qed
  qed
qed

lemma subset_inner_nonempty:
  assumes "subset_inner i c1 j done rest changed = (cs', ch)"
    and "\<forall>c \<in> set (done @ rest). variables c \<noteq> []"
  shows "\<forall>c \<in> set cs'. variables c \<noteq> []"
  using assms
proof (induction rest arbitrary: j "done" changed)
  case Nil
  then show ?case by simp
next
  case (Cons c2 rest)
  let ?nv = "filter (\<lambda>v. v \<notin> set (variables c1)) (variables c2)"
  let ?c = "Constraint ?nv (c_value c2 - c_value c1)"
  show ?case
  proof (cases "i \<noteq> j \<and> set (variables c1) \<subseteq> set (variables c2)")
    case False
    have r: "subset_inner i c1 (Suc j) (done @ [c2]) rest changed = (cs', ch)"
      using Cons.prems(1) unfolding subset_inner_Cons if_not_P[OF False] .
    have "\<forall>c \<in> set ((done @ [c2]) @ rest). variables c \<noteq> []" using Cons.prems(2) by simp
    from Cons.IH[OF r this] show ?thesis .
  next
    case True
    show ?thesis
    proof (cases "?nv = []")
      case e: True
      have "(done @ rest, True) = (cs', ch)"
        using Cons.prems(1) unfolding subset_inner_Cons if_P[OF True] using e by simp
      then have "cs' = done @ rest" by simp
      then show ?thesis using Cons.prems(2) by simp
    next
      case ne: False
      have r: "subset_inner i c1 (Suc j) (done @ [?c]) rest True = (cs', ch)"
        using Cons.prems(1) unfolding subset_inner_Cons if_P[OF True] if_P[OF ne] .
      have vc: "variables ?c \<noteq> []" using ne by (simp add: Constraint_def)
      have "\<forall>c \<in> set ((done @ [?c]) @ rest). variables c \<noteq> []"
        using Cons.prems(2) vc by simp
      from Cons.IH[OF r this] show ?thesis .
    qed
  qed
qed

lemma subset_outer_weight:
  assumes "subset_outer i cs = (cs', ch)" and "\<forall>c \<in> set cs. variables c \<noteq> []"
  shows "(\<not> ch \<longrightarrow> cs' = cs) \<and> (ch \<longrightarrow> weight cs' < weight cs)"
  using assms
proof (induction i cs rule: subset_outer.induct)
  case (1 i cs)
  show ?case
  proof (cases "i < length cs")
    case False
    then have "(cs, False) = (cs', ch)"
      using "1.prems"(1) by (simp add: subset_outer.simps[of i cs])
    then show ?thesis by auto
  next
    case True
    obtain cs1 ch1 where in1: "subset_inner i (cs ! i) 0 [] cs False = (cs1, ch1)"
      by (cases "subset_inner i (cs ! i) 0 [] cs False")
    have ne: "variables (cs ! i) \<noteq> []" using True "1.prems"(2) by simp
    note p = subset_inner_weight[OF in1 ne]
    show ?thesis
    proof (cases ch1)
      case ch1: True
      then have "(cs1, True) = (cs', ch)" using "1.prems"(1) True in1
        by (simp add: subset_outer.simps[of i cs])
      then have "cs' = cs1" "ch" by auto
      then show ?thesis using p ch1 by simp
    next
      case False
      then have "subset_outer (Suc i) cs = (cs', ch)"
        using "1.prems"(1) True in1 by (simp add: subset_outer.simps[of i cs])
      from "1.IH"[OF True in1[symmetric] False this "1.prems"(2)] show ?thesis .
    qed
  qed
qed

lemma subset_outer_nonempty:
  assumes "subset_outer i cs = (cs', ch)" and "\<forall>c \<in> set cs. variables c \<noteq> []"
  shows "\<forall>c \<in> set cs'. variables c \<noteq> []"
  using assms
proof (induction i cs rule: subset_outer.induct)
  case (1 i cs)
  show ?case
  proof (cases "i < length cs")
    case False
    then have "(cs, False) = (cs', ch)"
      using "1.prems"(1) by (simp add: subset_outer.simps[of i cs])
    then show ?thesis using "1.prems"(2) by auto
  next
    case True
    obtain cs1 ch1 where in1: "subset_inner i (cs ! i) 0 [] cs False = (cs1, ch1)"
      by (cases "subset_inner i (cs ! i) 0 [] cs False")
    have p: "\<forall>c \<in> set cs1. variables c \<noteq> []"
      using subset_inner_nonempty[OF in1] "1.prems"(2) by simp
    show ?thesis
    proof (cases ch1)
      case ch1: True
      then have "(cs1, True) = (cs', ch)" using "1.prems"(1) True in1
        by (simp add: subset_outer.simps[of i cs])
      then have "cs' = cs1" by auto
      then show ?thesis using p by simp
    next
      case False
      then have "subset_outer (Suc i) cs = (cs', ch)"
        using "1.prems"(1) True in1 by (simp add: subset_outer.simps[of i cs])
      from "1.IH"[OF True in1[symmetric] False this "1.prems"(2)] show ?thesis .
    qed
  qed
qed

text \<open>Without any assumption: a pass that reports no change has changed nothing.\<close>

lemma subset_inner_unchanged:
  "subset_inner i c1 j done rest changed = (cs', False) \<Longrightarrow> cs' = done @ rest \<and> \<not> changed"
proof (induction rest arbitrary: j "done" changed)
  case Nil
  then show ?case by simp
next
  case (Cons c2 rest)
  let ?nv = "filter (\<lambda>v. v \<notin> set (variables c1)) (variables c2)"
  let ?c = "Constraint ?nv (c_value c2 - c_value c1)"
  show ?case
  proof (cases "i \<noteq> j \<and> set (variables c1) \<subseteq> set (variables c2)")
    case False
    have r: "subset_inner i c1 (Suc j) (done @ [c2]) rest changed = (cs', False)"
      using Cons.prems(1) unfolding subset_inner_Cons if_not_P[OF False] .
    from Cons.IH[OF r] show ?thesis by simp
  next
    case True
    show ?thesis
    proof (cases "?nv = []")
      case e: True
      have "(done @ rest, True) = (cs', False)"
        using Cons.prems(1) unfolding subset_inner_Cons if_P[OF True] using e by simp
      then show ?thesis by simp
    next
      case ne: False
      have r: "subset_inner i c1 (Suc j) (done @ [?c]) rest True = (cs', False)"
        using Cons.prems(1) unfolding subset_inner_Cons if_P[OF True] if_P[OF ne] .
      from Cons.IH[OF r] show ?thesis by simp
    qed
  qed
qed

lemma subset_outer_unchanged: "subset_outer i cs = (cs', False) \<Longrightarrow> cs' = cs"
proof (induction i cs rule: subset_outer.induct)
  case (1 i cs)
  show ?case
  proof (cases "i < length cs")
    case False
    then show ?thesis using "1.prems" by (simp add: subset_outer.simps[of i cs])
  next
    case True
    obtain cs1 ch1 where in1: "subset_inner i (cs ! i) 0 [] cs False = (cs1, ch1)"
      by (cases "subset_inner i (cs ! i) 0 [] cs False")
    have nch: "\<not> ch1" using "1.prems" True in1
      by (auto simp: subset_outer.simps[of i cs] split: if_splits)
    then have "subset_outer (Suc i) cs = (cs', False)"
      using "1.prems"(1) True in1 by (simp add: subset_outer.simps[of i cs])
    from "1.IH"[OF True in1[symmetric] nch this] show ?thesis .
  qed
qed

lemma subset_while_fixed: "subset_outer 0 cs = (cs, False) \<Longrightarrow> subset_while cs = Some cs"
  by (simp add: subset_while.simps[of cs])

lemma subset_while_result:
  assumes "subset_while cs = Some cs'"
  shows "subset_outer 0 cs' = (cs', False)"
  using assms
proof (induction cs cs' rule: subset_while.raw_induct[rotated 1, consumes 1])
  case (1 f cs cs')
  obtain cs1 ch where o: "subset_outer 0 cs = (cs1, ch)" by (cases "subset_outer 0 cs")
  show ?case
  proof (cases ch)
    case True
    then have "f cs1 = Some cs'" using 1(2) o by simp
    then show ?thesis by (rule 1(1))
  next
    case False
    then have c: "cs' = cs1" using 1(2) o by simp
    have "cs1 = cs" using subset_outer_unchanged[of 0 cs cs1] o False by simp
    then show ?thesis using o False c by simp
  qed
qed

lemma subset_while_terminates:
  "\<forall>c \<in> set cs. variables c \<noteq> [] \<Longrightarrow> \<exists>cs'. subset_while cs = Some cs'"
proof (induction cs rule: measure_induct_rule[of weight])
  case (less cs)
  obtain cs1 ch where o: "subset_outer 0 cs = (cs1, ch)" by (cases "subset_outer 0 cs")
  note p = subset_outer_weight[OF o less.prems] subset_outer_nonempty[OF o less.prems]
  show ?case
  proof (cases ch)
    case True
    then have "weight cs1 < weight cs" using p(1) by simp
    from less.IH[OF this p(2)] obtain cs' where "subset_while cs1 = Some cs'" by blast
    then show ?thesis using o True by (simp add: subset_while.simps[of cs])
  next
    case False
    then show ?thesis using o by (simp add: subset_while.simps[of cs])
  qed
qed

lemma subset_inner_no_subset:
  assumes "subset_inner i c1 j done rest changed = (cs', False)"
    and "k < length rest" and "j + k \<noteq> i"
  shows "\<not> set (variables c1) \<subseteq> set (variables (rest ! k))"
  using assms
proof (induction rest arbitrary: j "done" changed k)
  case Nil
  then show ?case by simp
next
  case (Cons c2 rest)
  let ?nv = "filter (\<lambda>v. v \<notin> set (variables c1)) (variables c2)"
  let ?c = "Constraint ?nv (c_value c2 - c_value c1)"
  show ?case
  proof (cases "i \<noteq> j \<and> set (variables c1) \<subseteq> set (variables c2)")
    case False
    have r: "subset_inner i c1 (Suc j) (done @ [c2]) rest changed = (cs', False)"
      using Cons.prems(1) unfolding subset_inner_Cons if_not_P[OF False] .
    show ?thesis
    proof (cases k)
      case 0
      then show ?thesis using False Cons.prems(3) by auto
    next
      case (Suc k')
      then show ?thesis using Cons.IH[OF r, of k'] Cons.prems(2,3) by simp
    qed
  next
    case True
    show ?thesis
    proof (cases "?nv = []")
      case e: True
      have "(done @ rest, True) = (cs', False)"
        using Cons.prems(1) unfolding subset_inner_Cons if_P[OF True] using e by simp
      then show ?thesis by simp
    next
      case ne: False
      have r: "subset_inner i c1 (Suc j) (done @ [?c]) rest True = (cs', False)"
        using Cons.prems(1) unfolding subset_inner_Cons if_P[OF True] if_P[OF ne] .
      from subset_inner_unchanged[OF r] show ?thesis by simp
    qed
  qed
qed

lemma subset_outer_no_subset:
  assumes "subset_outer i cs = (cs', False)"
    and "i \<le> m" and "m < length cs" and "k < length cs" and "m \<noteq> k"
  shows "\<not> set (variables (cs ! m)) \<subseteq> set (variables (cs ! k))"
  using assms
proof (induction i cs rule: subset_outer.induct)
  case (1 i cs)
  have lt: "i < length cs" using "1.prems"(2,3) by simp
  obtain cs1 ch1 where in1: "subset_inner i (cs ! i) 0 [] cs False = (cs1, ch1)"
    by (cases "subset_inner i (cs ! i) 0 [] cs False")
  have nch: "\<not> ch1" using "1.prems"(1) lt in1
    by (auto simp: subset_outer.simps[of i cs] split: if_splits)
  have nx: "subset_outer (Suc i) cs = (cs', False)"
    using "1.prems"(1) lt in1 nch by (simp add: subset_outer.simps[of i cs])
  show ?case
  proof (cases "m = i")
    case True
    have "subset_inner i (cs ! i) 0 [] cs False = (cs1, False)" using in1 nch by simp
    from subset_inner_no_subset[OF this "1.prems"(4)] show ?thesis
      using True "1.prems"(5) by simp
  next
    case False
    then have "Suc i \<le> m" using "1.prems"(2) by simp
    from "1.IH"[OF lt in1[symmetric] nch nx this "1.prems"(3,4,5)] show ?thesis .
  qed
qed

definition row_s4 :: csp_strategy where
  "row_s4 = projr (simplify_constraints row_s3)"

text \<open>
  Claim C5, as the code has it. \<open>simplify_constraints\<close> is one pass over the
  constraints; the loop to a fixed point is the one of
  \<open>simplify_constraints_by_subset\<close>. On a solver whose constraints all have a variable
  the subset simplification ends; it leaves
  the board as it is; in its result no constraint has its variables among those of
  another one; and running it again changes nothing.
\<close>

theorem subset_simplification_fixed_point:
  assumes "\<forall>c \<in> set (constraints s). variables c \<noteq> []"
  shows "\<exists>s'. simplify_constraints_by_subset s = Some s' \<and> sboard s' = sboard s \<and>
           (\<forall>c \<in> set (constraints s'). variables c \<noteq> []) \<and>
           (\<forall>m k. m < length (constraints s') \<and> k < length (constraints s') \<and> m \<noteq> k \<longrightarrow>
              \<not> set (variables (constraints s' ! m)) \<subseteq> set (variables (constraints s' ! k))) \<and>
           simplify_constraints_by_subset s' = Some s'"
proof -
  obtain cs' where w: "subset_while (constraints s) = Some cs'"
    using subset_while_terminates[OF assms] by blast
  have fp: "subset_outer 0 cs' = (cs', False)" by (rule subset_while_result[OF w])
  let ?s = "s\<lparr>constraints := cs'\<rparr>"
  have 1: "simplify_constraints_by_subset s = Some ?s"
    by (simp add: simplify_constraints_by_subset_def w)
  have 2: "simplify_constraints_by_subset ?s = Some ?s"
    by (simp add: simplify_constraints_by_subset_def subset_while_fixed[OF fp])
  have 3: "\<forall>c \<in> set cs'. variables c \<noteq> []"
    using w assms
  proof (induction "constraints s" cs' arbitrary: s rule: subset_while.raw_induct[rotated 1, consumes 1])
    case (1 f cs')
    obtain cs1 ch where o: "subset_outer 0 (constraints s) = (cs1, ch)"
      by (cases "subset_outer 0 (constraints s)")
    have n1: "\<forall>c \<in> set cs1. variables c \<noteq> []" by (rule subset_outer_nonempty[OF o 1(3)])
    show ?case
    proof (cases ch)
      case True
      then have "f cs1 = Some cs'" using 1(2) o by simp
      from 1(1)[of "s\<lparr>constraints := cs1\<rparr>" cs'] this n1 show ?thesis by simp
    next
      case False
      then have "cs' = cs1" using 1(2) o by simp
      then show ?thesis using n1 by simp
    qed
  qed
  have 4: "\<forall>m k. m < length cs' \<and> k < length cs' \<and> m \<noteq> k \<longrightarrow>
              \<not> set (variables (cs' ! m)) \<subseteq> set (variables (cs' ! k))"
    using subset_outer_no_subset[OF fp] by blast
  show ?thesis
    using 1 2 3 4 by (intro exI[of _ ?s]) simp
qed

theorem subset_simplification_fixed_point_witness:
  "list_all (\<lambda>c. variables c \<noteq> []) (constraints quad_s2) \<and>
   constraints quad_s2 =
     [\<lparr>variables = [(0, 0), (0, 1), (0, 2), (1, 0), (1, 2)], c_value = 3\<rparr>,
      \<lparr>variables = [(0, 0), (0, 1), (0, 2), (1, 0)], c_value = 3\<rparr>,
      \<lparr>variables = [(0, 1), (0, 2), (0, 3), (1, 3)], c_value = 1\<rparr>] \<and>
   (\<exists>s'. simplify_constraints_by_subset quad_s2 = Some s' \<and>
      sboard s' = sboard quad_s2 \<and>
      constraints s' =
        [\<lparr>variables = [(1, 2)], c_value = 0\<rparr>,
         \<lparr>variables = [(0, 0), (0, 1), (0, 2), (1, 0)], c_value = 3\<rparr>,
         \<lparr>variables = [(0, 1), (0, 2), (0, 3), (1, 3)], c_value = 1\<rparr>] \<and>
      simplify_constraints_by_subset s' = Some s')"
proof -
  let ?s = "quad_s2"
  have c: "constraints quad_s2 =
     [\<lparr>variables = [(0, 0), (0, 1), (0, 2), (1, 0), (1, 2)], c_value = 3\<rparr>,
      \<lparr>variables = [(0, 0), (0, 1), (0, 2), (1, 0)], c_value = 3\<rparr>,
      \<lparr>variables = [(0, 1), (0, 2), (0, 3), (1, 3)], c_value = 1\<rparr>]" by code_simp
  have h: "\<forall>c \<in> set (constraints ?s). variables c \<noteq> []" by (simp add: c)
  have e: "map_option constraints (simplify_constraints_by_subset ?s) =
      Some [\<lparr>variables = [(1, 2)], c_value = 0\<rparr>,
         \<lparr>variables = [(0, 0), (0, 1), (0, 2), (1, 0)], c_value = 3\<rparr>,
         \<lparr>variables = [(0, 1), (0, 2), (0, 3), (1, 3)], c_value = 1\<rparr>]" by code_simp
  obtain s' where s': "simplify_constraints_by_subset ?s = Some s'" "sboard s' = sboard ?s"
      "simplify_constraints_by_subset s' = Some s'"
    using subset_simplification_fixed_point[OF h] by blast
  have "constraints s' =
        [\<lparr>variables = [(1, 2)], c_value = 0\<rparr>,
         \<lparr>variables = [(0, 0), (0, 1), (0, 2), (1, 0)], c_value = 3\<rparr>,
         \<lparr>variables = [(0, 1), (0, 2), (0, 3), (1, 3)], c_value = 1\<rparr>]"
    using e unfolding s'(1) by simp
  moreover have "list_all (\<lambda>c. variables c \<noteq> []) (constraints quad_s2)" by (simp add: c)
  ultimately show ?thesis using c s' by (intro conjI exI[of _ s']) simp_all
qed

text \<open>
  Claim C5 as stated fails. In the game on \<open>row_start\<close>, \<open>simplify_constraints\<close>
  followed by \<open>simplify_constraints_by_subset\<close> leaves the solver \<open>row_s3\<close> with one
  constraint, over the cell (0, 1) it has just marked and the cell (0, 3) it has just
  made visible. Running the pair again, with nothing done to the board in between,
  drops that constraint.
\<close>

theorem simplification_rerun_counterexample:
  "simplify_constraints row_s2 = Inr row_s3 \<and>
   simplify_constraints_by_subset row_s3 = Some row_s3 \<and>
   constraints row_s3 = [\<lparr>variables = [(0, 1), (0, 3)], c_value = 1\<rparr>] \<and>
   simplify_constraints row_s3 = Inr row_s4 \<and>
   simplify_constraints_by_subset row_s4 = Some row_s4 \<and>
   constraints row_s4 = []"
proof -
  have a: "\<not> isl (simplify_constraints row_s2)" "\<not> isl (simplify_constraints row_s3)"
    by code_simp+
  have 1: "simplify_constraints row_s2 = Inr row_s3" using a(1) unfolding row_s3_def by simp
  have 2: "simplify_constraints row_s3 = Inr row_s4" using a(2) unfolding row_s4_def by simp
  have 3: "constraints row_s3 = [\<lparr>variables = [(0, 1), (0, 3)], c_value = 1\<rparr>]" by code_simp
  have 4: "constraints row_s4 = []" by code_simp
  have 5: "simplify_constraints_by_subset row_s3 = Some row_s3"
    by (simp add: simplify_constraints_by_subset_def 3 subset_while_single)
  have "subset_while [] = Some []"
    by (simp add: subset_while.simps[of "[]"] subset_outer.simps[of 0 "[]"])
  then have 6: "simplify_constraints_by_subset row_s4 = Some row_s4"
    by (simp add: simplify_constraints_by_subset_def 4)
  show ?thesis using 1 2 3 4 5 6 by simp
qed





subsection \<open>The enumeration\<close>

text \<open>
  An assignment of the variables \<open>all_vars\<close> is given by the variables it makes mines,
  a sublist of \<open>all_vars\<close>. \<open>mines_among w c\<close> is the number of mines it puts on the
  variables of the constraint \<open>c\<close>.
\<close>

definition mines_among :: "cell list \<Rightarrow> constraint \<Rightarrow> int" where
  "mines_among w c = int (length (filter (\<lambda>v. v \<in> set w) (variables c)))"

definition satisfying_assignments :: "cell list \<Rightarrow> constraint list \<Rightarrow> cell list list" where
  "satisfying_assignments all_vars cs =
     filter (\<lambda>w. list_all (\<lambda>c. mines_among w c = c_value c) cs) (subseqs all_vars)"

text \<open>For the proofs: the mines of a dictionary, and the completions of a set of mines.\<close>

definition mines_of :: "(cell \<times> int) list \<Rightarrow> cell set" where
  "mines_of a = {v. map_of a v = Some 1}"

definition good :: "constraint list \<Rightarrow> cell set \<Rightarrow> bool" where
  "good cs M \<longleftrightarrow>
     list_all (\<lambda>c. int (length (filter (\<lambda>v. v \<in> M) (variables c))) = c_value c) cs"

definition ext :: "constraint list \<Rightarrow> cell set \<Rightarrow> cell list \<Rightarrow> cell set list" where
  "ext cs M r = filter (good cs) (map (\<lambda>w. M \<union> set w) (subseqs r))"

definition binary :: "(cell \<times> int) list \<Rightarrow> bool" where
  "binary a \<longleftrightarrow> distinct (map fst a) \<and> (\<forall>v x. map_of a v = Some x \<longrightarrow> x = 0 \<or> x = 1)"

lemma ext_Nil: "ext cs M [] = (if good cs M then [M] else [])"
  by (simp add: ext_def)

lemma ext_Cons:
  "length (filter P (ext cs M (v # r))) =
     length (filter P (ext cs M r)) + length (filter P (ext cs (insert v M) r))"
  by (simp add: ext_def Let_def o_def)

lemma ext_Cons_length:
  "length (ext cs M (v # r)) = length (ext cs M r) + length (ext cs (insert v M) r)"
  using ext_Cons[of "\<lambda>_. True"] by simp

lemma binary_update:
  assumes "binary a" "x = 0 \<or> x = 1"
  shows "binary (AList.update v x a)"
  using assms unfolding binary_def
  by (simp add: distinct_update update_conv' del: split_paired_All)

lemma get_assigned_binary:
  assumes "binary a"
  shows "get_assigned a v = (if v \<in> mines_of a then 1 else 0)"
proof (cases "map_of a v")
  case None
  then show ?thesis by (simp add: get_assigned_def mines_of_def)
next
  case (Some x)
  then have "x = 0 \<or> x = 1" using assms unfolding binary_def by blast
  then show ?thesis using Some by (auto simp: get_assigned_def mines_of_def)
qed

lemma sum_list_indicator:
  "sum_list (map (\<lambda>v. if v \<in> M then 1 else 0) vs) = int (length (filter (\<lambda>v. v \<in> M) vs))"
  by (induction vs) auto

lemma satisfies_good:
  assumes "binary a"
  shows "list_all (satisfies a) cs \<longleftrightarrow> good cs (mines_of a)"
proof -
  have g: "get_assigned a = (\<lambda>v. if v \<in> mines_of a then 1 else 0)"
    using get_assigned_binary[OF assms] by (simp add: fun_eq_iff)
  have "satisfies a =
      (\<lambda>c. int (length (filter (\<lambda>v. v \<in> mines_of a) (variables c))) = c_value c)"
    by (simp add: fun_eq_iff satisfies_def g sum_list_indicator)
  then show ?thesis by (simp add: good_def)
qed

lemma binary_Cons:
  assumes "binary ((k, x) # a)"
  shows "binary a" and "x = 0 \<or> x = 1" and "map_of a k = None"
proof -
  have d: "distinct (map fst a)" and k: "k \<notin> fst ` set a"
    using assms by (simp_all add: binary_def)
  show n: "map_of a k = None" using k by (simp add: map_of_eq_None_iff)
  have v: "\<forall>v y. map_of ((k, x) # a) v = Some y \<longrightarrow> y = 0 \<or> y = 1"
    using assms unfolding binary_def by blast
  show "x = 0 \<or> x = 1" using v[rule_format, of k x] by simp
  have "\<forall>v y. map_of a v = Some y \<longrightarrow> y = 0 \<or> y = 1"
  proof (intro allI impI)
    fix v y assume a: "map_of a v = Some y"
    then have "v \<noteq> k" using n by auto
    then have "map_of ((k, x) # a) v = Some y" using a by simp
    then show "y = 0 \<or> y = 1" using v by blast
  qed
  then show "binary a" using d unfolding binary_def by blast
qed

lemma mines_of_Cons:
  "map_of a k = None \<Longrightarrow>
   mines_of ((k, x) # a) = (if x = 1 then insert k (mines_of a) else mines_of a)"
  unfolding mines_of_def by (cases "x = 1") auto

lemma fold_count_mine:
  assumes "binary a"
  shows "fold count_mine a cnt v = cnt v + (if v \<in> mines_of a then 1 else 0)"
  using assms
proof (induction a arbitrary: cnt)
  case Nil
  then show ?case by (simp add: mines_of_def)
next
  case (Cons p a)
  obtain k x where p: "p = (k, x)" by (cases p)
  note b = binary_Cons[OF Cons.prems[unfolded p]]
  have kM: "k \<notin> mines_of a" using b(3) by (simp add: mines_of_def)
  note ih = Cons.IH[OF b(1)]
  show ?case
  proof (cases "x = 1")
    case True
    have "fold count_mine (p # a) cnt v = fold count_mine a (cnt(k := cnt k + 1)) v"
      using True by (simp add: p)
    also have "\<dots> = (cnt(k := cnt k + 1)) v + (if v \<in> mines_of a then 1 else 0)" by (rule ih)
    also have "\<dots> = cnt v + (if v \<in> insert k (mines_of a) then 1 else 0)"
      using kM by auto
    finally show ?thesis using True by (simp add: p mines_of_Cons[OF b(3)])
  next
    case False
    then have x0: "x = 0" using b(2) by simp
    have "fold count_mine (p # a) cnt v = fold count_mine a cnt v"
      using x0 by (simp add: p)
    also have "\<dots> = cnt v + (if v \<in> mines_of a then 1 else 0)" by (rule ih)
    finally show ?thesis using x0 by (simp add: p mines_of_Cons[OF b(3)])
  qed
qed

lemma mines_of_update0:
  assumes "v \<notin> fst ` set a"
  shows "mines_of (AList.update v 0 a) = mines_of a"
proof -
  have "map_of a v = None" using assms by (simp add: map_of_eq_None_iff)
  then show ?thesis by (auto simp: mines_of_def update_conv')
qed

lemma mines_of_update1:
  "mines_of (AList.update v 1 a) = insert v (mines_of a)"
  by (auto simp: mines_of_def update_conv')

lemma backtrack_counts:
  assumes "distinct all_vars"
  shows "n = length all_vars - k \<Longrightarrow> k \<le> length all_vars \<Longrightarrow> binary a \<Longrightarrow>
     fst ` set a \<inter> set (drop k all_vars) = {} \<Longrightarrow>
     backtrack all_vars cs k (a, t, cnt) =
       (a, t + int (length (ext cs (mines_of a) (drop k all_vars))),
        \<lambda>v. cnt v + int (length (filter (\<lambda>M. v \<in> M) (ext cs (mines_of a) (drop k all_vars)))))"
proof (induction n arbitrary: k a t cnt)
  case 0
  then have k: "k = length all_vars" by simp
  have f: "fold count_mine a cnt = (\<lambda>v. cnt v + (if v \<in> mines_of a then 1 else 0))"
    using fold_count_mine[OF "0.prems"(3)] by (simp add: fun_eq_iff)
  show ?case
    unfolding k
    by (simp add: backtrack.simps[of all_vars cs "length all_vars" a t cnt]
        satisfies_good[OF "0.prems"(3)] ext_Nil f fun_eq_iff)
next
  case (Suc n)
  then have lt: "k < length all_vars" by simp
  then have nle: "\<not> length all_vars \<le> k" by simp
  define var where "var = all_vars ! k"
  define r where "r = drop (Suc k) all_vars"
  have dr: "drop k all_vars = var # r"
    unfolding var_def r_def using lt by (simp add: Cons_nth_drop_Suc)
  have vk: "var \<notin> fst ` set a" using Suc.prems(4) dr by auto
  have vr: "var \<notin> set r" using assms dr by (metis distinct.simps(2) distinct_drop)
  define a0 where "a0 = AList.update var 0 a"
  define a1 where "a1 = AList.update var 1 a0"
  have b0: "binary a0" unfolding a0_def by (rule binary_update[OF Suc.prems(3)]) simp
  have b1: "binary a1" unfolding a1_def by (rule binary_update[OF b0]) simp
  have d0: "fst ` set a0 \<inter> set (drop (Suc k) all_vars) = {}"
    using Suc.prems(4) vr dr by (auto simp: a0_def dom_update r_def)
  have d1: "fst ` set a1 \<inter> set (drop (Suc k) all_vars) = {}"
    using d0 vr by (auto simp: a1_def dom_update r_def)
  have M0: "mines_of a0 = mines_of a" unfolding a0_def by (rule mines_of_update0[OF vk])
  have M1: "mines_of a1 = insert var (mines_of a)"
    unfolding a1_def by (simp add: mines_of_update1 M0)
  have n: "n = length all_vars - Suc k" "Suc k \<le> length all_vars" using Suc.prems(1) lt by simp_all
  note s1 = Suc.IH[OF n b0 d0, folded r_def, unfolded M0]
  note s2 = Suc.IH[OF n b1 d1, folded r_def, unfolded M1]
  have del: "AList.delete var a1 = a"
    using vk by (simp add: a1_def a0_def delete_update_same)
  show ?case
    unfolding dr
    by (simp add: backtrack.simps[of all_vars cs k a t cnt] nle Let_def var_def[symmetric]
        a0_def[symmetric] s1 a1_def[symmetric] s2 del ext_Cons ext_Cons_length fun_eq_iff)
qed

lemma distinct_all_variables: "distinct (all_variables cs)"
  by (simp add: all_variables_def)

lemma ext_empty:
  "length (filter (\<lambda>M. v \<in> M) (ext cs {} all_vars)) =
   length (filter (\<lambda>w. v \<in> set w) (satisfying_assignments all_vars cs))"
  "length (ext cs {} all_vars) = length (satisfying_assignments all_vars cs)"
proof -
  have g: "good cs (set w) \<longleftrightarrow> list_all (\<lambda>c. mines_among w c = c_value c) cs" for w
    by (simp add: good_def mines_among_def)
  have e: "ext cs {} all_vars = map set (satisfying_assignments all_vars cs)"
    by (simp add: ext_def satisfying_assignments_def filter_map o_def g)
  show "length (filter (\<lambda>M. v \<in> M) (ext cs {} all_vars)) =
   length (filter (\<lambda>w. v \<in> set w) (satisfying_assignments all_vars cs))"
    unfolding e by (simp add: filter_map o_def)
  show "length (ext cs {} all_vars) = length (satisfying_assignments all_vars cs)"
    unfolding e by simp
qed

lemma backtrack_enumerates:
  assumes "distinct all_vars"
  shows "backtrack all_vars cs 0 ([], 0, (\<lambda>_. 0)) =
     ([], int (length (satisfying_assignments all_vars cs)),
      \<lambda>v. int (length (filter (\<lambda>w. v \<in> set w) (satisfying_assignments all_vars cs))))"
proof -
  have b: "binary []" by (simp add: binary_def)
  have m: "mines_of [] = {}" by (simp add: mines_of_def)
  show ?thesis
    using backtrack_counts[OF assms refl, of 0 "[]" cs 0 "\<lambda>_. 0"] b
    by (simp add: m ext_empty)
qed

text \<open>
  The sublists of a duplicate-free list stand for the subsets of its elements, so the
  length of \<open>satisfying_assignments\<close> is the number of sets of variables that, taken as
  the mines, give every constraint its value.
\<close>

lemma satisfying_assignments_card:
  assumes "distinct all_vars"
  shows "length (satisfying_assignments all_vars cs) =
     card {M. M \<subseteq> set all_vars \<and>
              list_all (\<lambda>c. int (length (filter (\<lambda>v. v \<in> M) (variables c))) = c_value c) cs}"
proof -
  let ?Q = "\<lambda>M. list_all (\<lambda>c. int (length (filter (\<lambda>v. v \<in> M) (variables c))) = c_value c) cs"
  have m: "map set (satisfying_assignments all_vars cs) = filter ?Q (map set (subseqs all_vars))"
    by (simp add: satisfying_assignments_def filter_map o_def mines_among_def)
  have d: "distinct (map set (satisfying_assignments all_vars cs))"
    unfolding m using distinct_set_subseqs[OF assms] by (rule distinct_filter)
  have "length (satisfying_assignments all_vars cs)
        = length (map set (satisfying_assignments all_vars cs))" by simp
  also have "\<dots> = card (set (map set (satisfying_assignments all_vars cs)))"
    using distinct_card[OF d] by simp
  also have "set (map set (satisfying_assignments all_vars cs)) = {M \<in> Pow (set all_vars). ?Q M}"
    unfolding m using subseqs_powset[of all_vars] by auto
  finally show ?thesis by (simp add: Pow_def)
qed

text \<open>
  Claim C3. In \<open>solve_constraints\<close> the enumeration over the variables of a coupled
  subset ends with \<open>total_solutions\<close> the number of assignments of these variables that
  give every constraint of the subset exactly its value, and with
  \<open>var_is_mine_count[v]\<close> the number of those in which \<open>v\<close> is a mine; the shared
  dictionary is empty again. So \<open>solve_constraints\<close> answers from these numbers.
\<close>

theorem enumeration_complete:
  "backtrack (all_variables cs) cs 0 ([], 0, (\<lambda>_. 0)) =
     ([], int (length (satisfying_assignments (all_variables cs) cs)),
      \<lambda>v. int (length (filter (\<lambda>w. v \<in> set w) (satisfying_assignments (all_variables cs) cs)))) \<and>
   solve_constraints cs =
     (if length (satisfying_assignments (all_variables cs) cs) = 0 then None
      else first_certain (all_variables cs)
             (int (length (satisfying_assignments (all_variables cs) cs)))
             (\<lambda>v. int (length (filter (\<lambda>w. v \<in> set w)
                                  (satisfying_assignments (all_variables cs) cs)))))"
  by (simp add: solve_constraints_def Let_def backtrack_enumerates[OF distinct_all_variables])

theorem enumeration_complete_witness:
  "all_variables quad_component = [(0, 0), (1, 0), (0, 1), (0, 2), (0, 3), (1, 3)] \<and>
   satisfying_assignments (all_variables quad_component) quad_component =
     [[(0, 0), (1, 0), (0, 1)], [(0, 0), (1, 0), (0, 2)]] \<and>
   fst (snd (backtrack (all_variables quad_component) quad_component 0 ([], 0, (\<lambda>_. 0)))) = 2 \<and>
   map (snd (snd (backtrack (all_variables quad_component) quad_component 0 ([], 0, (\<lambda>_. 0)))))
       (all_variables quad_component) = [2, 2, 1, 1, 0, 0]"
proof -
  have a: "all_variables quad_component = [(0, 0), (1, 0), (0, 1), (0, 2), (0, 3), (1, 3)]"
    by code_simp
  have s: "satisfying_assignments (all_variables quad_component) quad_component =
     [[(0, 0), (1, 0), (0, 1)], [(0, 0), (1, 0), (0, 2)]]"
    by code_simp
  show ?thesis
    using conjunct1[OF enumeration_complete[of quad_component]]
    by (simp add: a s[unfolded a])
qed


subsection \<open>Certain moves\<close>

text \<open>
  A constraint holds on a board when its variables are cells of the board, each listed
  once, and its value is the number of mines among them.
\<close>

definition holds_on :: "minesweeper_board \<Rightarrow> constraint \<Rightarrow> bool" where
  "holds_on b c \<longleftrightarrow>
     distinct (variables c) \<and> list_all (in_range b) (variables c) \<and>
     int (length (filter (\<lambda>v. board b v = -1) (variables c))) = c_value c"

lemma first_unmarked_mem: "first_unmarked b vs = Inr (Some v) \<Longrightarrow> v \<in> set vs"
  by (induction vs) (auto split: if_splits)

lemma first_unknown_mem: "first_unknown b vs = Inr (Some v) \<Longrightarrow> v \<in> set vs"
  by (induction vs) (auto split: if_splits)

lemma find_certain_move_loop_sound:
  "find_certain_move_loop b cs = Inr (Some (act, v, r)) \<Longrightarrow>
   \<exists>c \<in> set cs. v \<in> set (variables c) \<and>
     (act = Probe \<and> c_value c = 0 \<or> act = Mark \<and> c_value c = int (length (variables c)))"
proof (induction cs)
  case Nil
  then show ?case by simp
next
  case (Cons c cs)
  define m1 where "m1 = (if c_value c = int (length (variables c))
                         then first_unmarked b (variables c) else Inr None)"
  define m2 where "m2 = (if c_value c = 0 then first_unknown b (variables c) else Inr None)"
  have eq: "find_certain_move_loop b (c # cs) =
     (case m1 of Inl e \<Rightarrow> Inl e
      | Inr (Some u) \<Rightarrow> Inr (Some (Mark, u, AllMustBeMines))
      | Inr None \<Rightarrow>
          (case m2 of Inl e \<Rightarrow> Inl e
           | Inr (Some u) \<Rightarrow> Inr (Some (Probe, u, AllMustBeClear))
           | Inr None \<Rightarrow> find_certain_move_loop b cs))"
    by (simp only: find_certain_move_loop.simps m1_def m2_def)
  consider (mark) u where "m1 = Inr (Some u)" "act = Mark" "v = u"
    | (probe) u where "m2 = Inr (Some u)" "act = Probe" "v = u"
    | (rest) "find_certain_move_loop b cs = Inr (Some (act, v, r))"
    using Cons.prems unfolding eq
    by (auto split: sum.splits option.splits)
  then show ?case
  proof cases
    case mark
    then have "c_value c = int (length (variables c))" "first_unmarked b (variables c) = Inr (Some u)"
      by (auto simp: m1_def split: if_splits)
    then show ?thesis using first_unmarked_mem[of b "variables c" u] mark by auto
  next
    case probe
    then have "c_value c = 0" "first_unknown b (variables c) = Inr (Some u)"
      by (auto simp: m2_def split: if_splits)
    then show ?thesis using first_unknown_mem[of b "variables c" u] probe by auto
  next
    case rest
    from Cons.IH[OF this] show ?thesis by auto
  qed
qed

lemma first_certain_sound:
  "first_certain vs t cnt = Some (act, v, r) \<Longrightarrow>
   v \<in> set vs \<and> (act = Probe \<and> cnt v = 0 \<or> act = Mark \<and> cnt v = t)"
  by (induction vs) (auto split: if_splits)

lemma filter_in_subseqs: "filter P xs \<in> set (subseqs xs)"
  by (induction xs) (auto simp: Let_def)

lemma length_filter_all: "length (filter P xs) = length xs \<Longrightarrow> x \<in> set xs \<Longrightarrow> P x"
  by (metis filter_id_conv length_filter_less less_irrefl)

lemma length_filter_none: "length (filter P xs) = 0 \<Longrightarrow> x \<in> set xs \<Longrightarrow> \<not> P x"
  by (auto simp: filter_empty_conv)

lemma variables_all_variables: "c \<in> set cs \<Longrightarrow> set (variables c) \<subseteq> set (all_variables cs)"
  by (auto simp: all_variables_def)

lemma all_variables_mem: "v \<in> set (all_variables cs) \<Longrightarrow> \<exists>c \<in> set cs. v \<in> set (variables c)"
  by (auto simp: all_variables_def)

text \<open>The mines of the board among the variables are one of the enumerated assignments.\<close>

lemma true_assignment:
  assumes "list_all (holds_on b) cs"
  shows "filter (\<lambda>v. board b v = -1) (all_variables cs)
           \<in> set (satisfying_assignments (all_variables cs) cs)"
proof -
  let ?w = "filter (\<lambda>v. board b v = -1) (all_variables cs)"
  have "mines_among ?w c = c_value c" if c: "c \<in> set cs" for c
  proof -
    have "filter (\<lambda>v. v \<in> set ?w) (variables c) = filter (\<lambda>v. board b v = -1) (variables c)"
      using variables_all_variables[OF c] by (intro filter_cong) auto
    moreover have "holds_on b c" using assms c by (simp add: list_all_iff)
    ultimately show ?thesis by (simp add: mines_among_def holds_on_def)
  qed
  then have "list_all (\<lambda>c. mines_among ?w c = c_value c) cs" by (simp add: list_all_iff)
  then show ?thesis by (simp add: satisfying_assignments_def filter_in_subseqs)
qed

lemma probe_safe_cell:
  assumes ir: "in_range b (i, j)" and nm: "board b (i, j) \<noteq> -1"
  shows "\<exists>b'. probe b i j = Inr (True, b') \<and> game_over b' = game_over b"
proof -
  have "board (after_first_move b (i, j)) (i, j) \<noteq> -1"
    using nm by (simp add: after_first_move_eq[OF ir])
  moreover obtain r b' where "probe b i j = Inr (r, b')"
    "r \<longleftrightarrow> board (after_first_move b (i, j)) (i, j) \<noteq> -1"
    "r \<longrightarrow> visible b' (i, j) \<and> game_over b' = game_over b"
    using probe_frame[OF ir] by blast
  ultimately show ?thesis by auto
qed

lemma bfs_bound:
  "set queue \<subseteq> {..< length cs} \<Longrightarrow> set component \<subseteq> {..< length cs} \<Longrightarrow>
   set (fst (bfs cs queue visited component)) \<subseteq> {..< length cs}"
proof (induction cs queue visited component rule: bfs.induct)
  case (1 cs visited component)
  then show ?case by (simp add: bfs.simps)
next
  case (2 cs node queue visited component)
  let ?new = "filter (\<lambda>neighbor. neighbor \<notin> set visited) (constraint_graph cs node)"
  have "set (queue @ ?new) \<subseteq> {..< length cs}"
    using "2.prems"(1) constraint_graph_bound[of cs node] by auto
  moreover have "set (component @ [node]) \<subseteq> {..< length cs}"
    using "2.prems" by auto
  ultimately have "set (fst (bfs cs (queue @ ?new) (visited @ ?new) (component @ [node])))
      \<subseteq> {..< length cs}"
    by (rule "2.IH"[OF refl])
  then show ?case by (simp add: bfs.simps Let_def)
qed

lemma components_loop_subset:
  "\<forall>part \<in> set acc. set part \<subseteq> set cs \<Longrightarrow> set idxs \<subseteq> {..< length cs} \<Longrightarrow>
   part \<in> set (components_loop cs idxs visited acc) \<Longrightarrow> set part \<subseteq> set cs"
proof (induction idxs arbitrary: visited acc)
  case Nil
  then show ?case by simp
next
  case (Cons i idxs)
  show ?case
  proof (cases "i \<in> set visited")
    case True
    then have "part \<in> set (components_loop cs idxs visited acc)" using Cons.prems(3) by simp
    from Cons.IH[OF Cons.prems(1) _ this] Cons.prems(2) show ?thesis by simp
  next
    case False
    obtain component visited' where b: "bfs cs [i] (visited @ [i]) [] = (component, visited')"
      by (cases "bfs cs [i] (visited @ [i]) []")
    have "set (fst (bfs cs [i] (visited @ [i]) [])) \<subseteq> {..< length cs}"
      using Cons.prems(2) by (intro bfs_bound) auto
    then have cb: "set component \<subseteq> {..< length cs}" using b by simp
    have "set (map (\<lambda>idx. cs ! idx) component) \<subseteq> set cs"
      using cb by auto
    then have acc: "\<forall>part \<in> set (acc @ [map (\<lambda>idx. cs ! idx) component]). set part \<subseteq> set cs"
      using Cons.prems(1) by auto
    have "part \<in> set (components_loop cs idxs visited' (acc @ [map (\<lambda>idx. cs ! idx) component]))"
      using Cons.prems(3) False b by simp
    from Cons.IH[OF acc _ this] Cons.prems(2) show ?thesis by simp
  qed
qed

text \<open>The coupled subsets that \<open>next_move\<close> enumerates are made of constraints of the solver.\<close>

lemma find_coupled_constraints_subset:
  "part \<in> set (find_coupled_constraints s) \<Longrightarrow> set part \<subseteq> set (constraints s)"
  unfolding find_coupled_constraints_def
  by (rule components_loop_subset[of "[]"]) auto

lemma solve_constraints_sound:
  assumes h: "list_all (holds_on b) cs" and m: "solve_constraints cs = Some (act, v, r)"
  shows "in_range b v \<and> (act = Probe \<longrightarrow> board b v \<noteq> -1) \<and> (act = Mark \<longrightarrow> board b v = -1)"
proof -
  let ?V = "all_variables cs"
  let ?S = "satisfying_assignments ?V cs"
  let ?w = "filter (\<lambda>v. board b v = -1) ?V"
  let ?cnt = "\<lambda>v. int (length (filter (\<lambda>w. v \<in> set w) ?S))"
  have bt: "backtrack ?V cs 0 ([], 0, (\<lambda>_. 0)) = ([], int (length ?S), ?cnt)"
    by (rule backtrack_enumerates[OF distinct_all_variables])
  have fc: "first_certain ?V (int (length ?S)) ?cnt = Some (act, v, r)"
    using m by (simp add: solve_constraints_def Let_def bt split: if_splits)
  note s = first_certain_sound[OF fc]
  have vV: "v \<in> set ?V" using s by simp
  obtain c where c: "c \<in> set cs" "v \<in> set (variables c)" using all_variables_mem[OF vV] by blast
  have "holds_on b c" using h c(1) by (simp add: list_all_iff)
  then have ir: "in_range b v" using c(2) by (simp add: holds_on_def list_all_iff)
  have w: "?w \<in> set ?S" by (rule true_assignment[OF h])
  have p: "board b v \<noteq> -1" if "act = Probe"
  proof -
    have "length (filter (\<lambda>w. v \<in> set w) ?S) = 0" using s that by simp
    from length_filter_none[OF this w] show ?thesis using vV by simp
  qed
  have k: "board b v = -1" if "act = Mark"
  proof -
    have "length (filter (\<lambda>w. v \<in> set w) ?S) = length ?S" using s that by simp
    from length_filter_all[OF this w] show ?thesis by simp
  qed
  show ?thesis using ir p k by blast
qed

lemma find_certain_move_sound:
  assumes h: "list_all (holds_on (sboard s)) (constraints s)"
    and m: "find_certain_move s = Inr (Some (act, v, r))"
  shows "in_range (sboard s) v \<and> (act = Probe \<longrightarrow> board (sboard s) v \<noteq> -1) \<and>
         (act = Mark \<longrightarrow> board (sboard s) v = -1)"
proof -
  obtain c where c: "c \<in> set (constraints s)" "v \<in> set (variables c)"
      "act = Probe \<and> c_value c = 0 \<or> act = Mark \<and> c_value c = int (length (variables c))"
    using find_certain_move_loop_sound[OF m[unfolded find_certain_move_def]] by blast
  have ho: "holds_on (sboard s) c" using h c(1) by (simp add: list_all_iff)
  then have ir: "in_range (sboard s) v" using c(2) by (simp add: holds_on_def list_all_iff)
  have n: "int (length (filter (\<lambda>v. board (sboard s) v = -1) (variables c))) = c_value c"
    using ho by (simp add: holds_on_def)
  have p: "board (sboard s) v \<noteq> -1" if "act = Probe"
  proof -
    have "length (filter (\<lambda>v. board (sboard s) v = -1) (variables c)) = 0"
      using c(3) that n by simp
    from length_filter_none[OF this c(2)] show ?thesis .
  qed
  have k: "board (sboard s) v = -1" if "act = Mark"
  proof -
    have "length (filter (\<lambda>v. board (sboard s) v = -1) (variables c)) = length (variables c)"
      using c(3) that n by simp
    from length_filter_all[OF this c(2)] show ?thesis .
  qed
  show ?thesis using ir p k by blast
qed

subsection \<open>Where constraints that hold come from\<close>

lemma distinct_shifted: "distinct (shifted p)"
  by (cases p) (simp add: offsets_def)

lemma holds_on_cong:
  "board b' = board b \<Longrightarrow> width b' = width b \<Longrightarrow> height b' = height b \<Longrightarrow>
   holds_on b' c = holds_on b c"
  by (simp add: holds_on_def in_range_def[abs_def])

text \<open>
  The constraint that \<open>add_constraint_from_move\<close> makes from a visible number holds
  on a board whose counts are right and that shows no mine.
\<close>

lemma new_constraint_holds:
  assumes ok: "counts_ok b" and nv: "no_visible_mine b" and ir: "in_range b p"
    and vis: "visible b p"
  shows "holds_on b (Constraint (filter (\<lambda>n. \<not> visible b n) (get_neighbors b p)) (board b p))"
proof -
  let ?un = "filter (\<lambda>n. \<not> visible b n) (get_neighbors b p)"
  have nm: "board b p \<noteq> -1" using nv ir vis by (simp add: no_visible_mine_def del: split_paired_All)
  then have v: "board b p = count_adjacent_mines b p"
    using ok ir by (simp add: counts_ok_def del: split_paired_All)
  have d: "distinct ?un" by (simp add: get_neighbors_def distinct_shifted)
  have "filter (\<lambda>v. board b v = -1) ?un
        = filter (\<lambda>n. in_range b n \<and> board b n = -1) (shifted p)"
    unfolding get_neighbors_def filter_filter
    using nv by (intro filter_cong) (auto simp: no_visible_mine_def simp del: split_paired_All)
  then have "int (length (filter (\<lambda>v. board b v = -1) ?un)) = board b p"
    by (simp add: v count_adjacent_mines_def)
  moreover have "list_all (in_range b) ?un" by (simp add: list_all_iff get_neighbors_def)
  ultimately show ?thesis
    using d by (simp add: holds_on_def Constraint_def list_all_iff distinct_remdups_id)
qed

lemma add_constraint_from_move_holds:
  assumes ok: "counts_ok (sboard s)" and nv: "no_visible_mine (sboard s)"
    and ir: "in_range (sboard s) (i, j)"
    and h: "list_all (holds_on (sboard s)) (constraints s)"
  shows "\<exists>s'. add_constraint_from_move s i j = Inr s' \<and> sboard s' = sboard s \<and>
           list_all (holds_on (sboard s)) (constraints s')"
proof -
  let ?b = "sboard s"
  have ib: "in_bounds ?b (i, j)" by (rule in_range_in_bounds[OF ir])
  have at: "at ?b (i, j) = (i, j)" by (rule at_in_range[OF ir])
  show ?thesis
  proof (cases "visible ?b (i, j)")
    case False
    then show ?thesis using ib at h by (simp add: add_constraint_from_move_def)
  next
    case True
    note n = new_constraint_holds[OF ok nv ir True]
    show ?thesis
      using ib at h True n by (simp add: add_constraint_from_move_def Let_def)
  qed
qed

lemma update_loop_holds:
  assumes ok: "counts_ok b" and nv: "no_visible_mine b"
  shows "sboard s = b \<Longrightarrow> \<forall>p \<in> set ps. in_range b p \<Longrightarrow> list_all (holds_on b) (constraints s) \<Longrightarrow>
     \<exists>s'. update_loop ps s = Inr s' \<and> sboard s' = b \<and> list_all (holds_on b) (constraints s')"
proof (induction ps arbitrary: s)
  case Nil
  then show ?case by simp
next
  case (Cons p ps)
  obtain i j where p: "p = (i, j)" by (cases p)
  show ?case
  proof (cases "visible (sboard s) (i, j)")
    case False
    then show ?thesis using Cons.IH[of s] Cons.prems by (simp add: p)
  next
    case True
    have ir: "in_range (sboard s) (i, j)" using Cons.prems(1,2) by (simp add: p)
    obtain s1 where s1: "add_constraint_from_move s i j = Inr s1" "sboard s1 = sboard s"
        "list_all (holds_on (sboard s)) (constraints s1)"
      using add_constraint_from_move_holds[of s i j] ok nv ir Cons.prems(1,3) by auto
    have "\<exists>s'. update_loop ps s1 = Inr s' \<and> sboard s' = b \<and> list_all (holds_on b) (constraints s')"
      using Cons.IH[of s1] s1 Cons.prems by simp
    then show ?thesis using True s1(1) by (simp add: p)
  qed
qed

text \<open>So every constraint that \<open>update_constraints\<close> adds holds.\<close>

lemma update_constraints_holds:
  assumes "counts_ok (sboard s)" and "no_visible_mine (sboard s)"
    and "list_all (holds_on (sboard s)) (constraints s)"
  shows "\<exists>s'. update_constraints s = Inr s' \<and> sboard s' = sboard s \<and>
           list_all (holds_on (sboard s)) (constraints s')"
  unfolding update_constraints_def
  using update_loop_holds[OF assms(1,2) refl _ assms(3), of "positions (sboard s)"]
  by (simp add: in_range_positions)

definition marks_ok :: "minesweeper_board \<Rightarrow> bool" where
  "marks_ok b \<longleftrightarrow> (\<forall>p. in_range b p \<and> marked b p \<longrightarrow> board b p = -1)"

lemma length_filter_split:
  "\<forall>x \<in> set xs. (P x \<longleftrightarrow> Q x \<or> R x) \<and> \<not> (Q x \<and> R x) \<Longrightarrow>
   length (filter P xs) = length (filter Q xs) + length (filter R xs)"
  by (induction xs) auto

lemma fold_set_visible:
  "list_all (in_range b) vs \<Longrightarrow>
   fold set_visible vs b = b\<lparr>visible := (\<lambda>p. visible b p \<or> p \<in> set vs)\<rparr>"
proof (induction vs arbitrary: b)
  case Nil
  then show ?case by simp
next
  case (Cons v vs)
  let ?b1 = "set_visible v b"
  have at: "at b v = v" using Cons.prems at_in_range[of b v] by simp
  have b1: "?b1 = b\<lparr>visible := (visible b)(v := True)\<rparr>" by (simp add: set_visible_def at)
  have "in_range ?b1 = in_range b" by (simp add: b1 in_range_def[abs_def])
  then have "list_all (in_range ?b1) vs" using Cons.prems by simp
  from Cons.IH[OF this] show ?case by (auto simp: b1 fun_eq_iff)
qed

lemma fold_set_marked:
  "list_all (in_range b) vs \<Longrightarrow>
   fold set_marked vs b = b\<lparr>marked := (\<lambda>p. marked b p \<or> p \<in> set vs)\<rparr>"
proof (induction vs arbitrary: b)
  case Nil
  then show ?case by simp
next
  case (Cons v vs)
  let ?b1 = "set_marked v b"
  have at: "at b v = v" using Cons.prems at_in_range[of b v] by simp
  have b1: "?b1 = b\<lparr>marked := (marked b)(v := True)\<rparr>" by (simp add: set_marked_def at)
  have "in_range ?b1 = in_range b" by (simp add: b1 in_range_def[abs_def])
  then have "list_all (in_range ?b1) vs" using Cons.prems by simp
  from Cons.IH[OF this] show ?case by (auto simp: b1 fun_eq_iff)
qed

text \<open>
  What one constraint that holds gives: the number of mines among its unknown variables
  is the value that \<open>simplify_constraints\<close> computes.
\<close>

lemma unknown_count:
  assumes h: "holds_on b c" and nv: "no_visible_mine b" and mk: "marks_ok b"
  shows "int (length (filter (\<lambda>v. board b v = -1) (filter (unknown b) (variables c)))) =
         c_value c - int (length (filter (known_mine b) (variables c)))"
proof -
  have ir: "\<forall>v \<in> set (variables c). in_range b v" using h by (simp add: holds_on_def list_all_iff)
  have "\<forall>v \<in> set (variables c).
          (board b v = -1 \<longleftrightarrow> known_mine b v \<or> (unknown b v \<and> board b v = -1)) \<and>
          \<not> (known_mine b v \<and> (unknown b v \<and> board b v = -1))"
  proof
    fix v assume v: "v \<in> set (variables c)"
    then have i: "in_range b v" using ir by simp
    have at: "at b v = v" by (rule at_in_range[OF i])
    have 1: "visible b v \<longrightarrow> board b v \<noteq> -1"
      using nv i by (simp add: no_visible_mine_def del: split_paired_All)
    have 2: "marked b v \<longrightarrow> board b v = -1"
      using mk i by (simp add: marks_ok_def del: split_paired_All)
    show "(board b v = -1 \<longleftrightarrow> known_mine b v \<or> (unknown b v \<and> board b v = -1)) \<and>
          \<not> (known_mine b v \<and> (unknown b v \<and> board b v = -1))"
      using 1 2 by (auto simp: known_mine_def unknown_def at)
  qed
  from length_filter_split[OF this]
  have "length (filter (\<lambda>v. board b v = -1) (variables c)) =
        length (filter (known_mine b) (variables c)) +
        length (filter (\<lambda>v. unknown b v \<and> board b v = -1) (variables c))" .
  moreover have "int (length (filter (\<lambda>v. board b v = -1) (variables c))) = c_value c"
    using h by (simp add: holds_on_def)
  ultimately show ?thesis by (simp add: filter_filter)
qed

lemma simplify_loop_holds:
  "list_all (holds_on b) cs \<Longrightarrow> list_all (holds_on b) acc \<Longrightarrow>
   no_visible_mine b \<Longrightarrow> marks_ok b \<Longrightarrow>
   \<exists>b' acc'. simplify_loop cs b acc = Inr (b', acc') \<and>
     board b' = board b \<and> width b' = width b \<and> height b' = height b \<and>
     no_visible_mine b' \<and> marks_ok b' \<and> list_all (holds_on b') acc'"
proof (induction cs arbitrary: b acc)
  case Nil
  then show ?case by simp
next
  case (Cons c cs)
  let ?nv = "filter (unknown b) (variables c)"
  let ?val = "c_value c - int (length (filter (known_mine b) (variables c)))"
  have hc: "holds_on b c" and hcs: "list_all (holds_on b) cs" using Cons.prems(1) by simp_all
  have ir: "list_all (in_range b) (variables c)" and dc: "distinct (variables c)"
    using hc by (simp_all add: holds_on_def)
  have ib: "list_all (in_bounds b) (variables c)"
    using ir in_range_in_bounds[of b] by (auto simp: list_all_iff)
  have irn: "list_all (in_range b) ?nv" using ir by (simp add: list_all_iff)
  have cnt: "int (length (filter (\<lambda>v. board b v = -1) ?nv)) = ?val"
    by (rule unknown_count[OF hc Cons.prems(3,4)])
  have step: "simplify_loop (c # cs) b acc =
     (if length ?nv = 0 then simplify_loop cs b acc
      else if ?val = 0 then simplify_loop cs (fold set_visible ?nv b) acc
      else if ?val = int (length ?nv) then simplify_loop cs (fold set_marked ?nv b) acc
      else simplify_loop cs b (acc @ [Constraint ?nv ?val]))"
    using ib by (simp add: Let_def)
  consider (empty) "length ?nv = 0"
    | (clear) "length ?nv \<noteq> 0" "?val = 0"
    | (mines) "length ?nv \<noteq> 0" "?val \<noteq> 0" "?val = int (length ?nv)"
    | (keep) "length ?nv \<noteq> 0" "?val \<noteq> 0" "?val \<noteq> int (length ?nv)"
    by blast
  then show ?case
  proof cases
    case empty
    then show ?thesis unfolding step using Cons.IH[OF hcs Cons.prems(2,3,4)] by simp
  next
    case clear
    let ?b1 = "fold set_visible ?nv b"
    have b1: "?b1 = b\<lparr>visible := (\<lambda>p. visible b p \<or> p \<in> set ?nv)\<rparr>"
      by (rule fold_set_visible[OF irn])
    have z: "length (filter (\<lambda>v. board b v = -1) ?nv) = 0" using cnt clear(2) by simp
    have safe: "\<forall>v \<in> set ?nv. board b v \<noteq> -1"
      using length_filter_none[OF z] by blast
    have f: "board ?b1 = board b" "width ?b1 = width b" "height ?b1 = height b"
      by (simp_all add: b1)
    have nv1: "no_visible_mine ?b1"
      using Cons.prems(3) safe
      by (auto simp: no_visible_mine_def b1 in_range_def simp del: split_paired_All)
    have mk1: "marks_ok ?b1"
      using Cons.prems(4) by (simp add: marks_ok_def b1 in_range_def del: split_paired_All)
    have h1: "list_all (holds_on ?b1) cs" "list_all (holds_on ?b1) acc"
      using hcs Cons.prems(2) holds_on_cong[OF f] by (simp_all add: list_all_iff)
    from Cons.IH[OF h1 nv1 mk1] show ?thesis unfolding step using clear f by auto
  next
    case mines
    let ?b1 = "fold set_marked ?nv b"
    have b1: "?b1 = b\<lparr>marked := (\<lambda>p. marked b p \<or> p \<in> set ?nv)\<rparr>"
      by (rule fold_set_marked[OF irn])
    have "length (filter (\<lambda>v. board b v = -1) ?nv) = length ?nv"
      using cnt mines(3) by simp
    then have allm: "\<forall>v \<in> set ?nv. board b v = -1"
      using length_filter_all[of "\<lambda>v. board b v = -1" ?nv] by blast
    have f: "board ?b1 = board b" "width ?b1 = width b" "height ?b1 = height b"
      by (simp_all add: b1)
    have nv1: "no_visible_mine ?b1"
      using Cons.prems(3) by (simp add: no_visible_mine_def b1 in_range_def del: split_paired_All)
    have mk1: "marks_ok ?b1"
      using Cons.prems(4) allm
      by (auto simp: marks_ok_def b1 in_range_def simp del: split_paired_All)
    have h1: "list_all (holds_on ?b1) cs" "list_all (holds_on ?b1) acc"
      using hcs Cons.prems(2) holds_on_cong[OF f] by (simp_all add: list_all_iff)
    from Cons.IH[OF h1 nv1 mk1] show ?thesis unfolding step using mines f by auto
  next
    case keep
    have dn: "distinct ?nv" using dc by simp
    have "holds_on b (Constraint ?nv ?val)"
      using dn irn cnt by (simp add: holds_on_def Constraint_def distinct_remdups_id)
    then have "list_all (holds_on b) (acc @ [Constraint ?nv ?val])"
      using Cons.prems(2) by simp
    from Cons.IH[OF hcs this Cons.prems(3,4)] show ?thesis unfolding step using keep by simp
  qed
qed

lemma count_on_subset:
  assumes "distinct xs" "distinct ys" "set xs \<subseteq> set ys"
  shows "length (filter (\<lambda>v. v \<in> set xs \<and> P v) ys) = length (filter P xs)"
proof -
  have "set (filter (\<lambda>v. v \<in> set xs \<and> P v) ys) = set (filter P xs)"
    using assms(3) by auto
  moreover have "distinct (filter (\<lambda>v. v \<in> set xs \<and> P v) ys)" "distinct (filter P xs)"
    using assms(1,2) by simp_all
  ultimately show ?thesis by (metis distinct_card)
qed

text \<open>The constraint that the subset simplification puts in place of B holds when A and B do.\<close>

lemma remainder_holds:
  assumes a: "holds_on b A" and h: "holds_on b B"
    and sub: "set (variables A) \<subseteq> set (variables B)"
  shows "holds_on b (Constraint (filter (\<lambda>v. v \<notin> set (variables A)) (variables B))
                       (c_value B - c_value A))"
proof -
  let ?P = "\<lambda>v. board b v = -1"
  let ?r = "filter (\<lambda>v. v \<notin> set (variables A)) (variables B)"
  have dA: "distinct (variables A)" and dB: "distinct (variables B)"
    using a h by (simp_all add: holds_on_def)
  have "\<forall>v \<in> set (variables B).
          (?P v \<longleftrightarrow> (v \<in> set (variables A) \<and> ?P v) \<or> (v \<notin> set (variables A) \<and> ?P v)) \<and>
          \<not> ((v \<in> set (variables A) \<and> ?P v) \<and> (v \<notin> set (variables A) \<and> ?P v))"
    by blast
  from length_filter_split[OF this]
  have "length (filter ?P (variables B)) =
        length (filter (\<lambda>v. v \<in> set (variables A) \<and> ?P v) (variables B)) +
        length (filter (\<lambda>v. v \<notin> set (variables A) \<and> ?P v) (variables B))" .
  then have "length (filter ?P (variables B)) =
        length (filter ?P (variables A)) + length (filter ?P ?r)"
    by (simp add: count_on_subset[OF dA dB sub] filter_filter)
  moreover have "int (length (filter ?P (variables A))) = c_value A"
    "int (length (filter ?P (variables B))) = c_value B"
    using a h by (simp_all add: holds_on_def)
  ultimately have "int (length (filter ?P ?r)) = c_value B - c_value A" by simp
  moreover have "distinct ?r" using dB by simp
  moreover have "list_all (in_range b) ?r" using h by (simp add: holds_on_def list_all_iff)
  ultimately show ?thesis
    by (simp add: holds_on_def Constraint_def distinct_remdups_id)
qed

lemma subset_inner_holds:
  assumes "subset_inner i c1 j done rest changed = (cs', ch)"
    and "holds_on b c1" and "list_all (holds_on b) (done @ rest)"
  shows "list_all (holds_on b) cs'"
  using assms
proof (induction rest arbitrary: j "done" changed)
  case Nil
  then show ?case by simp
next
  case (Cons c2 rest)
  let ?nv = "filter (\<lambda>v. v \<notin> set (variables c1)) (variables c2)"
  let ?c = "Constraint ?nv (c_value c2 - c_value c1)"
  show ?case
  proof (cases "i \<noteq> j \<and> set (variables c1) \<subseteq> set (variables c2)")
    case False
    have r: "subset_inner i c1 (Suc j) (done @ [c2]) rest changed = (cs', ch)"
      using Cons.prems(1) unfolding subset_inner_Cons if_not_P[OF False] .
    have "list_all (holds_on b) ((done @ [c2]) @ rest)" using Cons.prems(3) by simp
    from Cons.IH[OF r Cons.prems(2) this] show ?thesis .
  next
    case True
    show ?thesis
    proof (cases "?nv = []")
      case e: True
      have "(done @ rest, True) = (cs', ch)"
        using Cons.prems(1) unfolding subset_inner_Cons if_P[OF True] using e by simp
      then have "cs' = done @ rest" by simp
      then show ?thesis using Cons.prems(3) by simp
    next
      case ne: False
      have r: "subset_inner i c1 (Suc j) (done @ [?c]) rest True = (cs', ch)"
        using Cons.prems(1) unfolding subset_inner_Cons if_P[OF True] if_P[OF ne] .
      have "holds_on b c2" using Cons.prems(3) by simp
      from remainder_holds[OF Cons.prems(2) this conjunct2[OF True]]
      have "list_all (holds_on b) ((done @ [?c]) @ rest)" using Cons.prems(3) by simp
      from Cons.IH[OF r Cons.prems(2) this] show ?thesis .
    qed
  qed
qed

lemma subset_outer_holds:
  assumes "subset_outer i cs = (cs', ch)" and "list_all (holds_on b) cs"
  shows "list_all (holds_on b) cs'"
  using assms
proof (induction i cs rule: subset_outer.induct)
  case (1 i cs)
  show ?case
  proof (cases "i < length cs")
    case False
    then have "(cs, False) = (cs', ch)"
      using "1.prems"(1) by (simp add: subset_outer.simps[of i cs])
    then show ?thesis using "1.prems"(2) by auto
  next
    case True
    obtain cs1 ch1 where in1: "subset_inner i (cs ! i) 0 [] cs False = (cs1, ch1)"
      by (cases "subset_inner i (cs ! i) 0 [] cs False")
    have "holds_on b (cs ! i)" using True "1.prems"(2) by (simp add: list_all_length)
    then have p: "list_all (holds_on b) cs1"
      using subset_inner_holds[OF in1] "1.prems"(2) by simp
    show ?thesis
    proof (cases ch1)
      case ch1: True
      then have "(cs1, True) = (cs', ch)" using "1.prems"(1) True in1
        by (simp add: subset_outer.simps[of i cs])
      then have "cs' = cs1" by auto
      then show ?thesis using p by simp
    next
      case False
      then have "subset_outer (Suc i) cs = (cs', ch)"
        using "1.prems"(1) True in1 by (simp add: subset_outer.simps[of i cs])
      from "1.IH"[OF True in1[symmetric] False this "1.prems"(2)] show ?thesis .
    qed
  qed
qed

lemma subset_while_holds:
  assumes "subset_while cs = Some cs'" and "list_all (holds_on b) cs"
  shows "list_all (holds_on b) cs'"
  using assms
proof (induction cs cs' rule: subset_while.raw_induct[rotated 1, consumes 1])
  case (1 f cs cs')
  obtain cs1 ch where o: "subset_outer 0 cs = (cs1, ch)" by (cases "subset_outer 0 cs")
  have h1: "list_all (holds_on b) cs1" by (rule subset_outer_holds[OF o 1(3)])
  show ?case
  proof (cases ch)
    case True
    then have "f cs1 = Some cs'" using 1(2) o by simp
    from 1(1)[OF this h1] show ?thesis .
  next
    case False
    then have "cs' = cs1" using 1(2) o by simp
    then show ?thesis using h1 by simp
  qed
qed

lemma coupled_moves_from_solve:
  "coupled_moves b parts rnd = Inr (Some (act, v, r)) \<Longrightarrow> r \<noteq> CrapsShoot \<Longrightarrow>
   \<exists>part \<in> set parts. solve_constraints part = Some (act, v, r)"
proof (induction parts)
  case Nil
  then show ?case by simp
next
  case (Cons part parts)
  show ?case
  proof (cases "check_craps_shoot b part rnd")
    case (Inl e)
    then show ?thesis using Cons.prems by simp
  next
    case (Inr m)
    show ?thesis
    proof (cases m)
      case (Some mv)
      then have "mv = (act, v, r)" using Cons.prems(1) Inr by simp
      moreover have "snd (snd mv) = CrapsShoot"
        using Inr Some by (auto simp: check_craps_shoot_def Let_def split: if_splits)
      ultimately show ?thesis using Cons.prems(2) by simp
    next
      case None
      show ?thesis
      proof (cases "solve_constraints part")
        case n: None
        then have "coupled_moves b parts rnd = Inr (Some (act, v, r))"
          using Cons.prems(1) Inr None by simp
        from Cons.IH[OF this Cons.prems(2)] show ?thesis by auto
      next
        case (Some mv)
        then have "mv = (act, v, r)" using Cons.prems(1) Inr None by simp
        then show ?thesis using Some by simp
      qed
    qed
  qed
qed

text \<open>
  From a solver whose constraints hold, on a board that shows no mine and whose marks
  are mines, \<open>next_move\<close> keeps all that through its two simplifications: the cells
  it makes visible are no mines, the cells it marks are mines, and a move it returns
  from \<open>find_certain_move\<close> or from the enumeration is right on the board it leaves.
\<close>

lemma next_move_certain:
  assumes h: "list_all (holds_on (sboard s)) (constraints s)"
    and nv: "no_visible_mine (sboard s)" and mk: "marks_ok (sboard s)"
    and m: "next_move s rnd (\<lambda>_. None) = Some (Inr (Some (act, (i, j), r), s'))"
    and r: "r \<noteq> CrapsShoot"
  shows "board (sboard s') = board (sboard s) \<and> no_visible_mine (sboard s') \<and>
         marks_ok (sboard s') \<and> list_all (holds_on (sboard s')) (constraints s') \<and>
         in_range (sboard s') (i, j) \<and>
         (act = Probe \<longrightarrow> board (sboard s') (i, j) \<noteq> -1) \<and>
         (act = Mark \<longrightarrow> board (sboard s') (i, j) = -1)"
proof -
  obtain b1 cs1 where sl: "simplify_loop (constraints s) (sboard s) [] = Inr (b1, cs1)"
    and f1: "board b1 = board (sboard s)" "no_visible_mine b1" "marks_ok b1"
      "list_all (holds_on b1) cs1"
    using simplify_loop_holds[OF h _ nv mk, of "[]"] by auto
  define s1 where "s1 = s\<lparr>sboard := b1, constraints := cs1\<rparr>"
  have 1: "simplify_constraints s = Inr s1" by (simp add: simplify_constraints_def sl s1_def)
  obtain s2 where 2: "simplify_constraints_by_subset s1 = Some s2"
    using m by (auto simp: next_move_def 1 split: option.splits)
  obtain cs2 where w: "subset_while cs1 = Some cs2" and s2: "s2 = s1\<lparr>constraints := cs2\<rparr>"
    using 2 by (auto simp: simplify_constraints_by_subset_def s1_def)
  have h2: "list_all (holds_on b1) cs2" by (rule subset_while_holds[OF w f1(4)])
  have b2: "sboard s2 = b1" "constraints s2 = cs2" by (simp_all add: s2 s1_def)
  have m': "(case find_certain_move s2 of
               Inl e \<Rightarrow> Some (Inl e)
             | Inr (Some certain_move) \<Rightarrow> Some (Inr (Some certain_move, s2))
             | Inr None \<Rightarrow>
                 (case coupled_moves (sboard s2) (find_coupled_constraints s2) rnd of
                    Inl e \<Rightarrow> Some (Inl e)
                  | Inr (Some m) \<Rightarrow> Some (Inr (Some m, s2))
                  | Inr None \<Rightarrow> Some (Inr (None, s2))))
            = Some (Inr (Some (act, (i, j), r), s'))"
    using m by (simp add: next_move_def 1 2)
  have s': "s' = s2" using m' by (auto split: sum.splits option.splits)
  have h2': "list_all (holds_on (sboard s2)) (constraints s2)" using h2 b2 by simp
  consider (certain) "find_certain_move s2 = Inr (Some (act, (i, j), r))"
    | (solve) "coupled_moves (sboard s2) (find_coupled_constraints s2) rnd
                 = Inr (Some (act, (i, j), r))"
    using m' by (auto split: sum.splits option.splits)
  then have "in_range (sboard s2) (i, j) \<and> (act = Probe \<longrightarrow> board (sboard s2) (i, j) \<noteq> -1) \<and>
         (act = Mark \<longrightarrow> board (sboard s2) (i, j) = -1)"
  proof cases
    case certain
    from find_certain_move_sound[OF h2' this] show ?thesis .
  next
    case solve
    from coupled_moves_from_solve[OF this r] obtain part where
      p: "part \<in> set (find_coupled_constraints s2)" "solve_constraints part = Some (act, (i, j), r)"
      by blast
    have "set part \<subseteq> set (constraints s2)" by (rule find_coupled_constraints_subset[OF p(1)])
    then have "list_all (holds_on (sboard s2)) part" using h2' by (auto simp: list_all_iff)
    from solve_constraints_sound[OF this p(2)] show ?thesis .
  qed
  then show ?thesis using f1 h2' b2 s' by simp
qed

text \<open>
  Claim C1. When every constraint of the solver holds on the board (its variables are
  cells of the board and its value is the number of mines among them), a move that
  \<open>find_certain_move\<close> returns, and a move that \<open>solve_constraints\<close> returns for
  constraints of the solver, is right: the cell is on the board; a probe is of a cell
  that is no mine, so that executing it returns True and leaves \<open>game_over\<close> as it
  was; a mark is of a cell that is a mine. The constraints that \<open>update_constraints\<close>
  adds hold, and both simplifications keep that, as shown above.
\<close>

theorem certain_moves_are_sound:
  assumes "list_all (holds_on (sboard s)) (constraints s)"
    and "find_certain_move s = Inr (Some (act, (i, j), r)) \<or>
         set cs \<subseteq> set (constraints s) \<and> solve_constraints cs = Some (act, (i, j), r)"
  shows "in_range (sboard s) (i, j) \<and>
         (act = Probe \<longrightarrow> board (sboard s) (i, j) \<noteq> -1 \<and>
            (\<exists>b'. probe (sboard s) i j = Inr (True, b') \<and> game_over b' = game_over (sboard s))) \<and>
         (act = Mark \<longrightarrow> board (sboard s) (i, j) = -1)"
proof -
  have a: "in_range (sboard s) (i, j) \<and> (act = Probe \<longrightarrow> board (sboard s) (i, j) \<noteq> -1) \<and>
         (act = Mark \<longrightarrow> board (sboard s) (i, j) = -1)"
    using assms(2)
  proof
    assume "find_certain_move s = Inr (Some (act, (i, j), r))"
    from find_certain_move_sound[OF assms(1) this] show ?thesis .
  next
    assume b: "set cs \<subseteq> set (constraints s) \<and> solve_constraints cs = Some (act, (i, j), r)"
    then have "list_all (holds_on (sboard s)) cs" using assms(1) by (auto simp: list_all_iff)
    from solve_constraints_sound[OF this conjunct2[OF b]] show ?thesis .
  qed
  then show ?thesis using probe_safe_cell[of "sboard s" i j] by blast
qed

definition quad_clear :: csp_strategy where
  "quad_clear = quad_s2\<lparr>constraints := [\<lparr>variables = [(0, 3), (1, 3)], c_value = 0\<rparr>]\<rparr>"

definition quad_subset :: "constraint list" where
  "quad_subset = [constraints quad_s2 ! 2, constraints quad_s2 ! 1]"

theorem certain_moves_are_sound_witness:
  "list_all (holds_on (sboard quad_clear)) (constraints quad_clear) \<and>
   find_certain_move quad_clear = Inr (Some (Probe, (0, 3), AllMustBeClear)) \<and>
   board (sboard quad_clear) (0, 3) \<noteq> -1 \<and>
   (\<exists>b'. probe (sboard quad_clear) 0 3 = Inr (True, b') \<and>
      game_over b' = game_over (sboard quad_clear)) \<and>
   list_all (holds_on (sboard quad_s2)) (constraints quad_s2) \<and>
   set quad_subset \<subseteq> set (constraints quad_s2) \<and>
   solve_constraints quad_subset = Some (Probe, (0, 3), MineInNoSolution) \<and>
   board (sboard quad_s2) (0, 3) \<noteq> -1 \<and>
   (\<exists>b'. probe (sboard quad_s2) 0 3 = Inr (True, b') \<and> game_over b' = game_over (sboard quad_s2)) \<and>
   solve_constraints (rev quad_subset) = Some (Mark, (0, 0), MineInAllSolutions) \<and>
   board (sboard quad_s2) (0, 0) = -1"
proof -
  have h1: "list_all (holds_on (sboard quad_clear)) (constraints quad_clear)" by code_simp
  have m1: "find_certain_move quad_clear = Inr (Some (Probe, (0, 3), AllMustBeClear))"
    by code_simp
  have h2: "list_all (holds_on (sboard quad_s2)) (constraints quad_s2)" by code_simp
  have c: "constraints quad_s2 =
     [\<lparr>variables = [(0, 0), (0, 1), (0, 2), (1, 0), (1, 2)], c_value = 3\<rparr>,
      \<lparr>variables = [(0, 0), (0, 1), (0, 2), (1, 0)], c_value = 3\<rparr>,
      \<lparr>variables = [(0, 1), (0, 2), (0, 3), (1, 3)], c_value = 1\<rparr>]" by code_simp
  have s2: "set quad_subset \<subseteq> set (constraints quad_s2)"
    by (simp add: quad_subset_def c)
  have s3: "set (rev quad_subset) \<subseteq> set (constraints quad_s2)"
    by (simp add: quad_subset_def c)
  have m2: "solve_constraints quad_subset = Some (Probe, (0, 3), MineInNoSolution)" by code_simp
  have m3: "solve_constraints (rev quad_subset) = Some (Mark, (0, 0), MineInAllSolutions)"
    by code_simp
  note t1 = certain_moves_are_sound[OF h1 disjI1[OF m1]]
  note t2 = certain_moves_are_sound[OF h2 disjI2[OF conjI[OF s2 m2]]]
  note t3 = certain_moves_are_sound[OF h2 disjI2[OF conjI[OF s3 m3]]]
  show ?thesis using h1 m1 h2 s2 m2 m3 t1 t2 t3 by simp
qed

end
